theory Spec2Isabelle
  imports Main "HOL-Library.Word"
begin

unbundle bit_operations_syntax

section \<open>The xv6 log with a checksum block (\<^verbatim>\<open>src/xv6/log.c\<close>)\<close>

text \<open>
  The log layer of \<^verbatim>\<open>log.c\<close> is embedded as functions on an explicit state. The
  state holds the fields of the global \<^verbatim>\<open>struct log log\<close> together with the part of
  the world the log functions act on: the contents of the buffers that \<^verbatim>\<open>bread\<close>
  hands out, the contents of the disk, and the sequence of buffer-cache and console
  calls made so far.

  C \<^verbatim>\<open>int\<close> values (counts, block numbers) are mathematical integers: the
  code only adds small constants to them, and no statement below depends on 32-bit
  overflow of an \<^verbatim>\<open>int\<close>. The checksum is a C \<^verbatim>\<open>uint\<close> whose additions wrap, so it
  is a \<open>32 word\<close>; a byte of a buffer (\<^verbatim>\<open>uchar\<close>) is an \<open>8 word\<close>.

  Each function is a run of one thread. \<^verbatim>\<open>end_op\<close>, which only updates the
  counters under the lock and calls \<^verbatim>\<open>commit\<close>, is not embedded, and neither is
  \<^verbatim>\<open>journal.c\<close>, whose functions have empty bodies.
\<close>

type_synonym byte = "8 word"

type_synonym uint = "32 word"

text \<open>
  The data of one buffer, \<^verbatim>\<open>uchar data[BSIZE]\<close>, indexed by byte offset. Only the
  offsets below \<^verbatim>\<open>BSIZE\<close> are part of the buffer.
\<close>

type_synonym blockdata = "nat \<Rightarrow> byte"

text \<open>
  The constants of \<^verbatim>\<open>param.h\<close> and \<^verbatim>\<open>fs.h\<close>, which are not among the sources, are
  parameters of the model.
\<close>

record params =
  BSIZE :: nat
  LOGSIZE :: int
  MAXOPBLOCKS :: int

text \<open>
  The values of stock xv6 (\<^verbatim>\<open>BSIZE 512\<close>, \<^verbatim>\<open>MAXOPBLOCKS 10\<close>,
  \<^verbatim>\<open>LOGSIZE (MAXOPBLOCKS*3)\<close>), used for concrete instances only; the header comment
  of \<^verbatim>\<open>log.c\<close> speaks of 30 log blocks.
\<close>

definition xv6 :: params where
  "xv6 = \<lparr>BSIZE = 512, LOGSIZE = 30, MAXOPBLOCKS = 10\<rparr>"

text \<open>The two fields of \<^verbatim>\<open>struct superblock\<close> that \<^verbatim>\<open>initlog\<close> reads.\<close>

record superblock =
  logstart :: int
  nlog :: int

text \<open>
  Calls to the buffer cache and to the console, in the order in which they are made.
  \<^verbatim>\<open>brelse\<close> changes no contents and is left out. A \<^verbatim>\<open>cprintf\<close> is recorded with
  its format string (without the trailing newline) and its arguments.
\<close>

datatype event = Bread int | Bwrite int | Cprintf string "uint list"

text \<open>
  \<^verbatim>\<open>struct log\<close> (with \<^verbatim>\<open>struct logheader lh\<close> flattened into \<open>log_lh_n\<close> and
  \<open>log_lh_block\<close>), followed by the world. \<open>log_lock\<close> tells whether the running
  thread holds \<^verbatim>\<open>log.lock\<close>. \<open>bufs b\<close> is the data of the buffer that
  \<^verbatim>\<open>bread(log.dev, b)\<close> returns (the cached copy, which may be newer than the
  disk); \<open>disk b\<close> is what the device holds, changed by \<^verbatim>\<open>bwrite\<close> only. The
  log lives on one device, so blocks are identified by their number.
\<close>

record log_state =
  log_lock :: bool
  log_start :: int
  log_size :: int
  log_outstanding :: int
  log_committing :: int
  log_dev :: int
  log_checksum :: uint
  log_lh_n :: int
  log_lh_block :: "nat \<Rightarrow> int"
  bufs :: "int \<Rightarrow> blockdata"
  disk :: "int \<Rightarrow> blockdata"
  trace :: "event list"

text \<open>
  A \<^verbatim>\<open>panic\<close> halts the kernel: the result is \<open>Inl\<close> of the message and the state
  at the halt.
\<close>

type_synonym 'a result = "(string \<times> log_state) + 'a"

subsection \<open>Buffer cache, console, lock\<close>

definition bread :: "int \<Rightarrow> log_state \<Rightarrow> log_state" where
  "bread b s = s\<lparr>trace := trace s @ [Bread b]\<rparr>"

definition bwrite :: "int \<Rightarrow> log_state \<Rightarrow> log_state" where
  "bwrite b s = s\<lparr>disk := (disk s)(b := bufs s b), trace := trace s @ [Bwrite b]\<rparr>"

definition cprintf :: "string \<Rightarrow> uint list \<Rightarrow> log_state \<Rightarrow> log_state" where
  "cprintf fmt args s = s\<lparr>trace := trace s @ [Cprintf fmt args]\<rparr>"

definition acquire :: "log_state \<Rightarrow> log_state" where
  "acquire s = s\<lparr>log_lock := True\<rparr>"

definition release :: "log_state \<Rightarrow> log_state" where
  "release s = s\<lparr>log_lock := False\<rparr>"

text \<open>\<^verbatim>\<open>memmove(dst, src, BSIZE)\<close> on the data of two buffers.\<close>

definition memmove :: "params \<Rightarrow> blockdata \<Rightarrow> blockdata \<Rightarrow> blockdata" where
  "memmove P dst src = (\<lambda>j. if j < BSIZE P then src j else dst j)"

subsection \<open>The header block and the checksum block as bytes\<close>

text \<open>
  \<^verbatim>\<open>write_head\<close> and \<^verbatim>\<open>read_head\<close> cast the buffer to a \<^verbatim>\<open>struct logheader\<close>: on
  the x86 of xv6 an \<^verbatim>\<open>int\<close> is four bytes, least significant first, \<^verbatim>\<open>n\<close> at
  offset 0 and \<^verbatim>\<open>block[i]\<close> at offset \<open>4 + 4 * i\<close>.
\<close>

definition put_int :: "nat \<Rightarrow> int \<Rightarrow> blockdata \<Rightarrow> blockdata" where
  "put_int off v d =
     (\<lambda>j. if off \<le> j \<and> j < off + 4
          then ucast (drop_bit (8 * (j - off)) (word_of_int v :: uint))
          else d j)"

definition get_uint :: "nat \<Rightarrow> blockdata \<Rightarrow> uint" where
  "get_uint off d =
     ucast (d off) + push_bit 8 (ucast (d (off + 1)))
       + push_bit 16 (ucast (d (off + 2))) + push_bit 24 (ucast (d (off + 3)))"

definition get_int :: "nat \<Rightarrow> blockdata \<Rightarrow> int" where
  "get_int off d = sint (get_uint off d)"

subsection \<open>Header and install\<close>

definition install_step :: "params \<Rightarrow> nat \<Rightarrow> log_state \<Rightarrow> log_state" where
  "install_step P tail s =
     (let lb = log_start s + int tail + 1 + 1;
          db = log_lh_block s tail;
          s1 = bread db (bread lb s);
          s2 = s1\<lparr>bufs := (bufs s1)(db := memmove P (bufs s1 db) (bufs s1 lb))\<rparr>
      in bwrite db s2)"

definition install_trans :: "params \<Rightarrow> log_state \<Rightarrow> log_state" where
  "install_trans P s = fold (install_step P) [0..<nat (log_lh_n s)] s"

definition read_head :: "log_state \<Rightarrow> log_state" where
  "read_head s =
     (let s1 = bread (log_start s + 1) s;
          lh = bufs s1 (log_start s + 1);
          s2 = s1\<lparr>log_lh_n := get_int 0 lh\<rparr>
      in s2\<lparr>log_lh_block :=
              fold (\<lambda>i blk. blk(i := get_int (4 + 4 * i) lh))
                [0..<nat (log_lh_n s2)] (log_lh_block s2)\<rparr>)"

definition write_head :: "log_state \<Rightarrow> log_state" where
  "write_head s =
     (let hb = log_start s + 1;
          s1 = bread hb s;
          d = fold (\<lambda>i d. put_int (4 + 4 * i) (log_lh_block s1 i) d)
                [0..<nat (log_lh_n s1)] (put_int 0 (log_lh_n s1) (bufs s1 hb))
      in bwrite hb (s1\<lparr>bufs := (bufs s1)(hb := d)\<rparr>))"

subsection \<open>The checksum\<close>

text \<open>
  The inner loop \<^verbatim>\<open>for (j = 0; j < BSIZE; j++) checksum += ((j+1)*logblocks->data[j])\<close>:
  the product is computed on \<^verbatim>\<open>int\<close> and added to the \<^verbatim>\<open>uint\<close> accumulator.
\<close>

definition block_sum :: "params \<Rightarrow> blockdata \<Rightarrow> uint \<Rightarrow> uint" where
  "block_sum P d c = fold (\<lambda>j c. c + of_nat ((j + 1) * unat (d j))) [0..<BSIZE P] c"

text \<open>
  The outer loop occurs three times in the source, in \<^verbatim>\<open>write_checksum\<close>,
  \<^verbatim>\<open>check_checksum\<close> and \<^verbatim>\<open>recover_from_log\<close>, the same but for the block read:
  \<^verbatim>\<open>log.start+i+1\<close> in the first two, \<^verbatim>\<open>log.start+i+1+1\<close> in the third. \<open>first\<close>
  is the block read at \<open>i = 0\<close>. The result is the accumulator before
  \<^verbatim>\<open>checksum %= BSIZE\<close>.
\<close>

definition checksum_step :: "params \<Rightarrow> int \<Rightarrow> nat \<Rightarrow> uint \<times> log_state \<Rightarrow> uint \<times> log_state" where
  "checksum_step P first i cs =
     (case cs of (c, s) \<Rightarrow>
        let s1 = bread (first + int i) s
        in (block_sum P (bufs s1 (first + int i)) c, s1))"

definition checksum_loop :: "params \<Rightarrow> int \<Rightarrow> log_state \<Rightarrow> uint \<times> log_state" where
  "checksum_loop P first s = fold (checksum_step P first) [0..<nat (log_lh_n s)] (0, s)"

definition write_checksum :: "params \<Rightarrow> log_state \<Rightarrow> log_state" where
  "write_checksum P s =
     (case checksum_loop P (log_start s + 1) s of (c, s1) \<Rightarrow>
        let checksum = c mod of_nat (BSIZE P);
            s2 = s1\<lparr>log_checksum := checksum\<rparr>;
            s3 = cprintf ''write_checksum() - log checksum calculated as: %x '' [log_checksum s2] s2;
            cb = log_start s3;
            s4 = bread cb s3;
            d = (bufs s4 cb)
                  (0 := ucast checksum,
                   1 := ucast (drop_bit 8 checksum),
                   2 := ucast (drop_bit 16 checksum),
                   3 := ucast (drop_bit 24 checksum));
            s5 = bwrite cb (s4\<lparr>bufs := (bufs s4)(cb := d)\<rparr>);
            s6 = bread cb s5;
            test_checksum1 = get_uint 0 (bufs s6 cb)
        in cprintf ''disk written checksum data: %x '' [test_checksum1] s6)"

definition check_checksum :: "params \<Rightarrow> log_state \<Rightarrow> bool \<times> log_state" where
  "check_checksum P s =
     (case checksum_loop P (log_start s + 1) s of (c, s1) \<Rightarrow>
        let new_checksum = c mod of_nat (BSIZE P);
            s2 = cprintf ''check_checksum() - log checksum: %x '' [log_checksum s1] s1;
            s3 = cprintf ''check_checksum() - new checksum: %x '' [new_checksum] s2
        in if log_checksum s3 = new_checksum
           then (True, cprintf ''check_checksum() - checksum validated prior to commit'' [] s3)
           else (False, cprintf ''check_checksum() - ERROR: checksum invalid prior to commit'' [] s3))"

subsection \<open>Recovery and initialisation\<close>

definition recover_from_log :: "params \<Rightarrow> log_state \<Rightarrow> log_state" where
  "recover_from_log P s =
     (let s1 = bread (log_start s) s;
          disk_check = get_uint 0 (bufs s1 (log_start s1))
      in case checksum_loop P (log_start s1 + 1 + 1) s1 of (c, s2) \<Rightarrow>
           let checksum = c mod of_nat (BSIZE P)
           in if disk_check = checksum
              then write_head
                     ((install_trans P
                        (read_head
                          (cprintf ''boot log checksum match, proceding with log commit. '' [] s2)))
                      \<lparr>log_lh_n := 0\<rparr>)
              else cprintf ''boot log checksum mismatch, will not commit log.'' [] s2)"

text \<open>
  \<^verbatim>\<open>sizeof(struct logheader)\<close> is \<open>4 * (LOGSIZE + 1)\<close>. \<^verbatim>\<open>readsb\<close> belongs to the file
  system layer; the superblock it returns is the argument \<open>sb\<close>. \<^verbatim>\<open>initlock\<close>
  leaves the lock free.
\<close>

definition initlog :: "params \<Rightarrow> int \<Rightarrow> superblock \<Rightarrow> log_state \<Rightarrow> log_state result" where
  "initlog P dev sb s =
     (if 4 * (LOGSIZE P + 1) \<ge> int (BSIZE P)
      then Inl (''initlog: too big logheader'', s)
      else Inr (recover_from_log P
                  (s\<lparr>log_lock := False, log_start := logstart sb, log_size := nlog sb,
                     log_dev := dev, log_checksum := 0\<rparr>)))"

text \<open>
  The state at boot: \<^verbatim>\<open>struct log log\<close> is a zero-initialised global, the buffer
  cache is empty, so every \<^verbatim>\<open>bread\<close> returns what the disk \<open>d\<close> holds.
\<close>

definition log_boot :: "(int \<Rightarrow> blockdata) \<Rightarrow> log_state" where
  "log_boot d =
     \<lparr>log_lock = False, log_start = 0, log_size = 0, log_outstanding = 0,
      log_committing = 0, log_dev = 0, log_checksum = 0, log_lh_n = 0,
      log_lh_block = (\<lambda>_. 0), bufs = d, disk = d, trace = []\<rparr>"

subsection \<open>Admission\<close>

text \<open>
  \<^verbatim>\<open>begin_op\<close> loops until it is admitted, sleeping on \<^verbatim>\<open>&log\<close> in between.
  \<^verbatim>\<open>sleep\<close> gives up \<^verbatim>\<open>log.lock\<close> and returns, with the lock held again, after a
  \<^verbatim>\<open>wakeup\<close>; by then other threads have changed the log. The list \<open>ws\<close> holds the
  log states found at the successive wake-ups. The result is \<open>None\<close> when the
  caller is asleep and no wake-up is left, \<open>Some\<close> of the state at the return
  otherwise.
\<close>

definition sleep :: "log_state \<Rightarrow> log_state" where
  "sleep w = w\<lparr>log_lock := True\<rparr>"

fun begin_loop :: "params \<Rightarrow> log_state list \<Rightarrow> log_state \<Rightarrow> log_state option" where
  "begin_loop P [] s =
     (if log_committing s \<noteq> 0 then None
      else if log_lh_n s + (log_outstanding s + 1) * MAXOPBLOCKS P > (LOGSIZE P - 2) then None
      else Some (release (s\<lparr>log_outstanding := log_outstanding s + 1\<rparr>)))"
| "begin_loop P (w # ws) s =
     (if log_committing s \<noteq> 0 then begin_loop P ws (sleep w)
      else if log_lh_n s + (log_outstanding s + 1) * MAXOPBLOCKS P > (LOGSIZE P - 2)
           then begin_loop P ws (sleep w)
      else Some (release (s\<lparr>log_outstanding := log_outstanding s + 1\<rparr>)))"

definition begin_op :: "params \<Rightarrow> log_state list \<Rightarrow> log_state \<Rightarrow> log_state option" where
  "begin_op P ws s = begin_loop P ws (acquire s)"

subsection \<open>Commit\<close>

definition write_log_step :: "params \<Rightarrow> nat \<Rightarrow> log_state \<Rightarrow> log_state" where
  "write_log_step P tail s =
     (let to = log_start s + int tail + 1 + 1;
          from = log_lh_block s tail;
          s1 = bread from (bread to s);
          s2 = s1\<lparr>bufs := (bufs s1)(to := memmove P (bufs s1 to) (bufs s1 from))\<rparr>
      in bwrite to s2)"

definition write_log :: "params \<Rightarrow> log_state \<Rightarrow> log_state" where
  "write_log P s = fold (write_log_step P) [0..<nat (log_lh_n s)] s"

text \<open>
  The statement \<^verbatim>\<open>if (check_checksum()) { ... } else panic(...)\<close> of \<^verbatim>\<open>commit\<close>,
  from the state left by \<^verbatim>\<open>write_checksum\<close>.
\<close>

definition commit_verify :: "params \<Rightarrow> log_state \<Rightarrow> log_state result" where
  "commit_verify P s =
     (case check_checksum P s of (ok, s1) \<Rightarrow>
        if ok
        then Inr (write_head ((install_trans P (write_head s1))\<lparr>log_lh_n := 0\<rparr>))
        else Inl (''log checksum has a missmatch'', s1))"

definition commit :: "params \<Rightarrow> log_state \<Rightarrow> log_state result" where
  "commit P s =
     (if log_lh_n s > 0
      then commit_verify P (write_checksum P (write_log P s))
      else Inr s)"

subsection \<open>Recording a block\<close>

text \<open>
  The absorption scan \<^verbatim>\<open>for (i = 0; i < log.lh.n; i++) if (log.lh.block[i] == b->blockno) break;\<close>
  started at \<open>i\<close>; the result is the value of \<^verbatim>\<open>i\<close> after the loop.
\<close>

function scan :: "(nat \<Rightarrow> int) \<Rightarrow> int \<Rightarrow> int \<Rightarrow> nat \<Rightarrow> nat" where
  "scan blk n blockno i =
     (if int i < n then (if blk i = blockno then i else scan blk n blockno (Suc i)) else i)"
  by pat_completeness auto

termination
  by (relation "measure (\<lambda>(blk, n, blockno, i). nat n - i)") auto

declare scan.simps [simp del]

text \<open>
  \<^verbatim>\<open>log_write(b)\<close> for a buffer with \<^verbatim>\<open>b->blockno = blockno\<close>. Setting
  \<^verbatim>\<open>B_DIRTY\<close> in \<^verbatim>\<open>b->flags\<close> concerns the eviction policy of the buffer cache,
  which is not part of the state.
\<close>

definition log_write :: "params \<Rightarrow> int \<Rightarrow> log_state \<Rightarrow> log_state result" where
  "log_write P blockno s =
     (if log_lh_n s \<ge> LOGSIZE P \<or> log_lh_n s \<ge> (log_size s - 1 - 1)
      then Inl (''too big a transaction'', s)
      else if log_outstanding s < 1
      then Inl (''log_write outside of trans'', s)
      else let s1 = acquire s;
               i = scan (log_lh_block s1) (log_lh_n s1) blockno 0;
               s2 = s1\<lparr>log_lh_block := (log_lh_block s1)(i := blockno)\<rparr>;
               s3 = (if int i = log_lh_n s2 then s2\<lparr>log_lh_n := log_lh_n s2 + 1\<rparr> else s2)
           in Inr (release s3))"

text \<open>
  A transaction as its sequence of \<^verbatim>\<open>log_write\<close> calls, stopping at the first
  panic.
\<close>

fun log_writes :: "params \<Rightarrow> int list \<Rightarrow> log_state \<Rightarrow> log_state result" where
  "log_writes P [] s = Inr s"
| "log_writes P (b # bs) s =
     (case log_write P b s of Inl e \<Rightarrow> Inl e | Inr s1 \<Rightarrow> log_writes P bs s1)"

text \<open>The block numbers staged in the header: \<^verbatim>\<open>block[0 .. n-1]\<close>.\<close>

definition staged :: "log_state \<Rightarrow> int list" where
  "staged s = map (log_lh_block s) [0..<nat (log_lh_n s)]"

text \<open>
  The steps of a run that matter for the order of a commit: every \<^verbatim>\<open>bwrite\<close>, and
  the verdict that \<^verbatim>\<open>check_checksum\<close> prints. Reads and the other messages are
  dropped.
\<close>

fun steps :: "event list \<Rightarrow> event list" where
  "steps [] = []"
| "steps (Bread b # es) = steps es"
| "steps (Bwrite b # es) = Bwrite b # steps es"
| "steps (Cprintf fmt args # es) =
     (if fmt = ''check_checksum() - checksum validated prior to commit''
      then Cprintf fmt args # steps es
      else if fmt = ''check_checksum() - ERROR: checksum invalid prior to commit''
      then Cprintf fmt args # steps es
      else steps es)"

text \<open>The message of a panic, if the run ended in one.\<close>

fun panic_msg :: "'a result \<Rightarrow> string option" where
  "panic_msg (Inl (m, s)) = Some m"
| "panic_msg (Inr x) = None"

subsection \<open>Concrete states\<close>

text \<open>
  A log of 30 blocks at block 2 of an all-zero disk, with one operation admitted and
  nothing staged yet.
\<close>

definition tx_begin :: log_state where
  "tx_begin = (log_boot (\<lambda>_ _. 0))\<lparr>log_start := 2, log_size := 30, log_outstanding := 1\<rparr>"

text \<open>The same log with 28 blocks staged, \<open>40, 41, \<dots>, 67\<close>, and no operation admitted.\<close>

definition full_log :: log_state where
  "full_log = (log_boot (\<lambda>_ _. 0))
     \<lparr>log_start := 2, log_size := 30, log_lh_n := 28, log_lh_block := (\<lambda>i. 40 + int i)\<rparr>"

text \<open>A log in the middle of a commit, and a log with two operations admitted.\<close>

definition committing_log :: log_state where
  "committing_log = tx_begin\<lparr>log_outstanding := 0, log_committing := 1\<rparr>"

definition busy_log :: log_state where
  "busy_log = tx_begin\<lparr>log_outstanding := 2\<rparr>"

text \<open>
  A transaction at the start of its commit: blocks 40 and 41 are staged, their
  buffers hold new data (first byte 1 and 2), the disk is still all zero.
\<close>

definition staged_tx :: log_state where
  "staged_tx = (log_boot (\<lambda>_ _. 0))
     \<lparr>log_start := 2, log_size := 30, log_committing := 1, log_dev := 1, log_lh_n := 2,
      log_lh_block := (\<lambda>_. 0)(0 := 40, 1 := 41),
      bufs := (\<lambda>_ _. 0)(40 := (\<lambda>_. 0)(0 := 1), 41 := (\<lambda>_. 0)(0 := 2))\<rparr>"

text \<open>
  The disk when the machine stops right after the first \<^verbatim>\<open>write_head\<close> of that
  commit (log written, checksum written and verified, header written, nothing
  installed).
\<close>

definition crash_disk :: "int \<Rightarrow> blockdata" where
  "crash_disk =
     disk (write_head (snd (check_checksum xv6 (write_checksum xv6 (write_log xv6 staged_tx)))))"

text \<open>
  The state in which \<^verbatim>\<open>initlog(1)\<close> calls \<^verbatim>\<open>recover_from_log\<close> at the next boot
  on that disk, and the state in which recovery leaves the log.
\<close>

definition crash_boot :: log_state where
  "crash_boot = (log_boot crash_disk)\<lparr>log_lock := False, log_start := 2, log_size := 30,
        log_dev := 1, log_checksum := 0\<rparr>"

definition reboot :: log_state where
  "reboot = recover_from_log xv6 crash_boot"

text \<open>
  A disk on which recovery replays: the checksum block reads 0, the header block
  declares the two blocks 40 and 41, and the first two slots hold data.
\<close>

definition replay_disk :: "int \<Rightarrow> blockdata" where
  "replay_disk =
     (\<lambda>_ _. 0)(3 := put_int 8 41 (put_int 4 40 (put_int 0 2 (\<lambda>_. 0))),
                4 := (\<lambda>_. 0)(511 := 1),
                5 := (\<lambda>_. 0)(0 := 2))"

section \<open>Recording a block: absorption and the capacity guard\<close>

subsection \<open>The absorption scan\<close>

lemma scan_bounds: "i \<le> nat n \<Longrightarrow> i \<le> scan blk n b i \<and> scan blk n b i \<le> nat n"
proof (induction blk n b i rule: scan.induct)
  case (1 blk n blockno i)
  show ?case
  proof (cases "int i < n \<and> blk i \<noteq> blockno")
    case True
    then have "Suc i \<le> nat n" by linarith
    with "1.IH" True
    have "Suc i \<le> scan blk n blockno (Suc i) \<and> scan blk n blockno (Suc i) \<le> nat n"
      by simp
    with True show ?thesis by (subst scan.simps, subst scan.simps) simp
  next
    case False
    with "1.prems" show ?thesis by (subst scan.simps, subst scan.simps) auto
  qed
qed

lemma scan_hit: "scan blk n b i < nat n \<Longrightarrow> blk (scan blk n b i) = b"
proof (induction blk n b i rule: scan.induct)
  case (1 blk n blockno i)
  show ?case
  proof (cases "int i < n")
    case True
    show ?thesis
    proof (cases "blk i = blockno")
      case True
      with \<open>int i < n\<close> have "scan blk n blockno i = i" by (subst scan.simps) simp
      with True show ?thesis by simp
    next
      case False
      with \<open>int i < n\<close> have eq: "scan blk n blockno i = scan blk n blockno (Suc i)"
        by (subst scan.simps) simp
      with "1.IH" [OF \<open>int i < n\<close> False] "1.prems" show ?thesis by simp
    qed
  next
    case False
    then have "scan blk n blockno i = i" by (subst scan.simps) simp
    with False "1.prems" show ?thesis by linarith
  qed
qed

lemma scan_miss: "i \<le> j \<Longrightarrow> j < scan blk n b i \<Longrightarrow> blk j \<noteq> b"
proof (induction blk n b i rule: scan.induct)
  case (1 blk n blockno i)
  show ?case
  proof (cases "int i < n \<and> blk i \<noteq> blockno")
    case True
    then have eq: "scan blk n blockno i = scan blk n blockno (Suc i)"
      by (subst scan.simps) simp
    show ?thesis
    proof (cases "j = i")
      case True
      with \<open>int i < n \<and> blk i \<noteq> blockno\<close> show ?thesis by simp
    next
      case False
      with "1.prems" have "Suc i \<le> j" by simp
      with "1.IH" True "1.prems" eq show ?thesis by simp
    qed
  next
    case False
    then have "scan blk n blockno i = i" by (subst scan.simps) auto
    with "1.prems" show ?thesis by simp
  qed
qed

subsection \<open>One call of \<^verbatim>\<open>log_write\<close>\<close>

lemma length_staged: "0 \<le> log_lh_n s \<Longrightarrow> int (length (staged s)) = log_lh_n s"
  by (simp add: staged_def)

lemma log_write_succeeds:
  assumes "log_lh_n s < LOGSIZE P" "log_lh_n s < log_size s - 2" "1 \<le> log_outstanding s"
  shows "\<exists>s1. log_write P b s = Inr s1"
  using assms by (simp add: log_write_def Let_def)

lemma log_write_staged:
  assumes n0: "0 \<le> log_lh_n s" and ok: "log_write P b s = Inr s'"
  shows "staged s' = (if b \<in> set (staged s) then staged s else staged s @ [b])"
    and "log_lh_n s' = (if b \<in> set (staged s) then log_lh_n s else log_lh_n s + 1)"
    and "log_size s' = log_size s" and "log_outstanding s' = log_outstanding s"
proof -
  define i where "i = scan (log_lh_block s) (log_lh_n s) b 0"
  have bnd: "i \<le> nat (log_lh_n s)" unfolding i_def using scan_bounds [of 0] by simp
  have miss: "\<forall>j<i. log_lh_block s j \<noteq> b"
    unfolding i_def using scan_miss [of 0] by simp
  have notin: "b \<notin> set (staged s)" if "nat (log_lh_n s) = i"
  proof
    assume "b \<in> set (staged s)"
    then obtain j where "j < nat (log_lh_n s)" "log_lh_block s j = b"
      by (auto simp: staged_def)
    with miss that show False by simp
  qed
  have isin: "b \<in> set (staged s) \<and> (log_lh_block s)(i := b) = log_lh_block s"
    if "int i \<noteq> log_lh_n s"
  proof -
    from that bnd n0 have lt: "i < nat (log_lh_n s)" by linarith
    then have hit: "log_lh_block s i = b" unfolding i_def by (rule scan_hit)
    with lt have "b \<in> set (staged s)" by (auto simp: staged_def)
    moreover from hit have "(log_lh_block s)(i := b) = log_lh_block s" by auto
    ultimately show ?thesis ..
  qed
  have s': "s' = release ((if int i = log_lh_n s
                 then (acquire s)\<lparr>log_lh_block := (log_lh_block s)(i := b),
                                   log_lh_n := log_lh_n s + 1\<rparr>
                 else (acquire s)\<lparr>log_lh_block := (log_lh_block s)(i := b)\<rparr>))"
    using ok by (auto simp: log_write_def Let_def i_def acquire_def split: if_splits)
  show "log_size s' = log_size s" "log_outstanding s' = log_outstanding s"
    by (simp_all add: s' release_def acquire_def)
  show "staged s' = (if b \<in> set (staged s) then staged s else staged s @ [b])"
  proof (cases "int i = log_lh_n s")
    case True
    then have ni: "nat (log_lh_n s) = i" by simp
    from True have "log_lh_n s' = int i + 1" "log_lh_block s' = (log_lh_block s)(i := b)"
      by (simp_all add: s' release_def acquire_def)
    moreover have "nat (int i + 1) = Suc i" by simp
    ultimately have "staged s' = map ((log_lh_block s)(i := b)) [0..<Suc i]"
      by (simp only: staged_def)
    also have "\<dots> = staged s @ [b]"
      using ni by (simp add: staged_def)
    finally show ?thesis using notin [OF ni] by simp
  next
    case False
    with isin [OF False] show ?thesis by (simp add: s' release_def acquire_def staged_def)
  qed
  show "log_lh_n s' = (if b \<in> set (staged s) then log_lh_n s else log_lh_n s + 1)"
  proof (cases "int i = log_lh_n s")
    case True
    then have "nat (log_lh_n s) = i" by simp
    then have "b \<notin> set (staged s)" by (rule notin)
    with True show ?thesis by (simp add: s' release_def acquire_def)
  next
    case False
    with isin [OF False] show ?thesis by (simp add: s' release_def acquire_def)
  qed
qed

lemma log_write_inv:
  assumes "0 \<le> log_lh_n s" "distinct (staged s)" "log_write P b s = Inr s1"
  shows "0 \<le> log_lh_n s1" "distinct (staged s1)" "set (staged s1) = insert b (set (staged s))"
    "log_lh_n s1 \<le> log_lh_n s + 1"
  using log_write_staged [OF assms(1) assms(3)] assms(1,2) by (auto split: if_splits)

subsection \<open>Repeated recording of one block\<close>

lemma log_writes_replicate:
  assumes "0 \<le> log_lh_n s" and "log_writes P (replicate N b) s = Inr s'"
  shows "staged s' = (if N = 0 \<or> b \<in> set (staged s) then staged s else staged s @ [b])"
    and "log_lh_n s' = (if N = 0 \<or> b \<in> set (staged s) then log_lh_n s else log_lh_n s + 1)"
  using assms
proof (induction N arbitrary: s)
  case 0
  { case 1 then show ?case by simp }
  { case 2 then show ?case by simp }
next
  case (Suc N)
  { case 1
    from 1(2) obtain s1 where s1: "log_write P b s = Inr s1"
      and rest: "log_writes P (replicate N b) s1 = Inr s'"
      by (auto split: sum.splits)
    note st = log_write_staged [OF 1(1) s1]
    from st(2) 1(1) have n1: "0 \<le> log_lh_n s1" by (simp split: if_splits)
    from st(1) have "b \<in> set (staged s1)" by (simp split: if_splits)
    with Suc.IH(1) [OF n1 rest] st(1) show ?case by simp }
  { case 2
    from 2(2) obtain s1 where s1: "log_write P b s = Inr s1"
      and rest: "log_writes P (replicate N b) s1 = Inr s'"
      by (auto split: sum.splits)
    note st = log_write_staged [OF 2(1) s1]
    from st(2) 2(1) have n1: "0 \<le> log_lh_n s1" by (simp split: if_splits)
    from st(1) have "b \<in> set (staged s1)" by (simp split: if_splits)
    with Suc.IH(2) [OF n1 rest] st(2) show ?case by simp }
qed

text \<open>
  C5. Recording the same block number \<open>N \<ge> 1\<close> times in a transaction (all calls
  returning) leaves the staged list as it was when the block was already staged, and
  otherwise appends the block once, at the position of its first recording; the
  count \<open>n\<close> grows by one exactly when the block was not yet in the list. A block
  staged at most once before is staged exactly once afterwards.
\<close>

theorem log_write_absorbs:
  assumes "0 \<le> log_lh_n s" and "1 \<le> N" and "log_writes P (replicate N b) s = Inr s'"
  shows "staged s' = (if b \<in> set (staged s) then staged s else staged s @ [b])
     \<and> log_lh_n s' = (if b \<in> set (staged s) then log_lh_n s else log_lh_n s + 1)
     \<and> (count_list (staged s) b \<le> 1 \<longrightarrow> count_list (staged s') b = 1)"
proof -
  from assms(2) have N: "N \<noteq> 0" by simp
  note r = log_writes_replicate [OF assms(1) assms(3)]
  have "count_list (staged s') b = 1" if "count_list (staged s) b \<le> 1"
  proof (cases "b \<in> set (staged s)")
    case True
    then have "count_list (staged s) b \<noteq> 0" by (simp only: count_list_0_iff not_not)
    with that True r(1) N show ?thesis by simp
  next
    case False
    then have "count_list (staged s) b = 0" by (simp add: count_list_0_iff)
    with False r(1) N show ?thesis by simp
  qed
  with r N show ?thesis by simp
qed

theorem log_write_absorbs_witness:
  "0 \<le> log_lh_n tx_begin \<and> (1::nat) \<le> 3
   \<and> log_writes xv6 (replicate 3 40) tx_begin
       = Inr (tx_begin\<lparr>log_lh_n := 1, log_lh_block := (\<lambda>_. 0)(0 := 40)\<rparr>)
   \<and> staged (tx_begin\<lparr>log_lh_n := 1, log_lh_block := (\<lambda>_. 0)(0 := 40)\<rparr>) = [40]
   \<and> log_lh_n (tx_begin\<lparr>log_lh_n := 1, log_lh_block := (\<lambda>_. 0)(0 := 40)\<rparr>) = 1
   \<and> count_list (staged (tx_begin\<lparr>log_lh_n := 1, log_lh_block := (\<lambda>_. 0)(0 := 40)\<rparr>)) 40 = 1"
proof -
  have run: "log_writes xv6 (replicate 3 40) tx_begin
       = Inr (tx_begin\<lparr>log_lh_n := 1, log_lh_block := (\<lambda>_. 0)(0 := 40)\<rparr>)"
    by (simp add: numeral_3_eq_3 log_write_def scan.simps tx_begin_def log_boot_def xv6_def
          acquire_def release_def Let_def)
  have st: "staged tx_begin = []" by (simp add: staged_def tx_begin_def log_boot_def)
  have "0 \<le> log_lh_n tx_begin" by (simp add: tx_begin_def log_boot_def)
  from log_write_absorbs [OF this _ run] st show ?thesis
    using run by (simp add: tx_begin_def log_boot_def)
qed

subsection \<open>The guards of \<^verbatim>\<open>log_write\<close>\<close>

text \<open>
  C10. The capacity guard is the first statement of \<^verbatim>\<open>log_write\<close>: once \<open>n\<close> has
  reached \<^verbatim>\<open>LOGSIZE\<close> or \<^verbatim>\<open>log.size - 2\<close>, every call panics with
  \<^verbatim>\<open>too big a transaction\<close>, whatever the block number, also for a block that is
  already staged.
\<close>

theorem log_write_full:
  "log_lh_n s \<ge> LOGSIZE P \<or> log_lh_n s \<ge> log_size s - 2 \<Longrightarrow>
   log_write P blockno s = Inl (''too big a transaction'', s)"
  by (auto simp: log_write_def)

theorem log_write_full_witness:
  "40 \<in> set (staged (full_log\<lparr>log_outstanding := 1\<rparr>)) \<and>
   log_write xv6 40 (full_log\<lparr>log_outstanding := 1\<rparr>)
     = Inl (''too big a transaction'', full_log\<lparr>log_outstanding := 1\<rparr>)"
proof -
  have "0 \<in> {0..<28::nat}" by simp
  then have "40 + int 0 \<in> (\<lambda>i. 40 + int i) ` {0..<28::nat}" by (rule imageI)
  then have "40 \<in> set (staged (full_log\<lparr>log_outstanding := 1\<rparr>))"
    by (simp add: staged_def full_log_def log_boot_def)
  moreover have "log_lh_n (full_log\<lparr>log_outstanding := 1\<rparr>) \<ge> LOGSIZE xv6
      \<or> log_lh_n (full_log\<lparr>log_outstanding := 1\<rparr>)
           \<ge> log_size (full_log\<lparr>log_outstanding := 1\<rparr>) - 2"
    by (simp add: full_log_def log_boot_def xv6_def)
  ultimately show ?thesis
    using log_write_full [of xv6 "full_log\<lparr>log_outstanding := 1\<rparr>" 40] by simp
qed

text \<open>
  C8, as the code has it. The test \<^verbatim>\<open>log.outstanding < 1\<close> is the second guard. With
  no operation admitted every call panics, with \<^verbatim>\<open>log_write outside of trans\<close>
  unless the capacity guard fires first, then with \<^verbatim>\<open>too big a transaction\<close>. With
  an operation admitted the panic \<^verbatim>\<open>log_write outside of trans\<close> cannot occur.
\<close>

theorem log_write_outside:
  "(log_outstanding s < 1 \<longrightarrow>
      log_write P blockno s =
        Inl (if log_lh_n s \<ge> LOGSIZE P \<or> log_lh_n s \<ge> log_size s - 2
             then ''too big a transaction'' else ''log_write outside of trans'', s))
   \<and> (1 \<le> log_outstanding s \<longrightarrow>
        log_write P blockno s \<noteq> Inl (''log_write outside of trans'', s'))"
  by (auto simp: log_write_def Let_def)

theorem log_write_outside_witness:
  "log_outstanding (tx_begin\<lparr>log_outstanding := 0\<rparr>) < 1
   \<and> log_write xv6 40 (tx_begin\<lparr>log_outstanding := 0\<rparr>)
       = Inl (''log_write outside of trans'', tx_begin\<lparr>log_outstanding := 0\<rparr>)
   \<and> 1 \<le> log_outstanding tx_begin
   \<and> log_write xv6 40 tx_begin \<noteq> Inl (''log_write outside of trans'', tx_begin)"
  using log_write_outside [of "tx_begin\<lparr>log_outstanding := 0\<rparr>" xv6 40]
    log_write_outside [of tx_begin xv6 40 tx_begin]
  by (simp add: tx_begin_def log_boot_def xv6_def)

text \<open>
  The statement of C8 with the message it names fails on a full log: with 28 blocks
  staged in a log of 30 blocks and no operation admitted, the panic is
  \<^verbatim>\<open>too big a transaction\<close>.
\<close>

theorem log_write_outside_counterexample:
  "log_outstanding full_log < 1
   \<and> log_write xv6 40 full_log = Inl (''too big a transaction'', full_log)
   \<and> log_write xv6 40 full_log \<noteq> Inl (''log_write outside of trans'', full_log)"
  by (simp add: log_write_def full_log_def log_boot_def xv6_def)

subsection \<open>Transactions and the capacity\<close>

lemma log_writes_too_big:
  assumes "distinct (staged s)" "0 \<le> log_lh_n s" "1 \<le> log_outstanding s"
    and "int (card (set (staged s) \<union> set bs)) > min (LOGSIZE P) (log_size s - 2)"
    and "log_lh_n s \<le> min (LOGSIZE P) (log_size s - 2) \<or> bs \<noteq> []"
  shows "\<exists>s'. log_writes P bs s = Inl (''too big a transaction'', s')"
  using assms
proof (induction bs arbitrary: s)
  case Nil
  from Nil(1) have "card (set (staged s)) = length (staged s)" by (rule distinct_card)
  with length_staged [OF Nil(2)] Nil(4,5) show ?case by auto
next
  case (Cons b bs)
  show ?case
  proof (cases "log_lh_n s \<ge> LOGSIZE P \<or> log_lh_n s \<ge> log_size s - 2")
    case True
    then have "log_write P b s = Inl (''too big a transaction'', s)"
      by (auto simp: log_write_def)
    then show ?thesis by simp
  next
    case False
    then have lt: "log_lh_n s < LOGSIZE P" "log_lh_n s < log_size s - 2" by simp_all
    from log_write_succeeds [OF lt Cons.prems(3)] obtain s1 where s1: "log_write P b s = Inr s1"
      by blast
    note inv = log_write_inv [OF Cons.prems(2) Cons.prems(1) s1]
    note st = log_write_staged [OF Cons.prems(2) s1]
    have "set (staged s1) \<union> set bs = set (staged s) \<union> set (b # bs)"
      using inv(3) by auto
    with Cons.prems(4) st(3)
    have big: "int (card (set (staged s1) \<union> set bs)) > min (LOGSIZE P) (log_size s1 - 2)"
      by simp
    from lt inv(4) st(3) have "log_lh_n s1 \<le> min (LOGSIZE P) (log_size s1 - 2)" by simp
    then have "log_lh_n s1 \<le> min (LOGSIZE P) (log_size s1 - 2) \<or> bs \<noteq> []" ..
    from Cons.IH [OF inv(2) inv(1) _ big this] Cons.prems(3) st(4) s1
    show ?thesis by simp
  qed
qed

lemma log_writes_fits_iff:
  assumes "distinct (staged s)" "0 \<le> log_lh_n s" "1 \<le> log_outstanding s"
  shows "(\<exists>s'. log_writes P bs s = Inr s') \<longleftrightarrow>
     (\<forall>k<length bs. int (card (set (staged s) \<union> set (take k bs)))
                       < min (LOGSIZE P) (log_size s - 2))"
  using assms
proof (induction bs arbitrary: s)
  case Nil
  then show ?case by simp
next
  case (Cons b bs)
  from Cons.prems(1) have "card (set (staged s)) = length (staged s)" by (rule distinct_card)
  with length_staged [OF Cons.prems(2)] have cardn: "int (card (set (staged s))) = log_lh_n s"
    by simp
  show ?case
  proof (cases "log_lh_n s \<ge> LOGSIZE P \<or> log_lh_n s \<ge> log_size s - 2")
    case True
    then have "log_write P b s = Inl (''too big a transaction'', s)"
      by (auto simp: log_write_def)
    then have "\<not> (\<exists>s'. log_writes P (b # bs) s = Inr s')" by simp
    moreover from True cardn
    have "\<not> int (card (set (staged s) \<union> set (take 0 (b # bs))))
            < min (LOGSIZE P) (log_size s - 2)"
      by auto
    then have "\<not> (\<forall>k<length (b # bs).
       int (card (set (staged s) \<union> set (take k (b # bs)))) < min (LOGSIZE P) (log_size s - 2))"
      by blast
    ultimately show ?thesis by blast
  next
    case False
    then have lt: "log_lh_n s < LOGSIZE P" "log_lh_n s < log_size s - 2" by simp_all
    from log_write_succeeds [OF lt Cons.prems(3)] obtain s1 where s1: "log_write P b s = Inr s1"
      by blast
    note inv = log_write_inv [OF Cons.prems(2) Cons.prems(1) s1]
    note st = log_write_staged [OF Cons.prems(2) s1]
    have sets: "set (staged s1) \<union> set (take k bs)
        = set (staged s) \<union> set (take (Suc k) (b # bs))" for k
      using inv(3) by auto
    from st(4) Cons.prems(3) have o1: "1 \<le> log_outstanding s1" by simp
    have "(\<exists>s'. log_writes P (b # bs) s = Inr s') \<longleftrightarrow> (\<exists>s'. log_writes P bs s1 = Inr s')"
      using s1 by simp
    also have "\<dots> \<longleftrightarrow> (\<forall>k<length bs.
        int (card (set (staged s) \<union> set (take (Suc k) (b # bs))))
          < min (LOGSIZE P) (log_size s - 2))"
      using Cons.IH [OF inv(2) inv(1) o1] by (simp only: sets st(3))
    also have "\<dots> \<longleftrightarrow> (\<forall>k<length (b # bs).
        int (card (set (staged s) \<union> set (take k (b # bs)))) < min (LOGSIZE P) (log_size s - 2))"
      (is "?L \<longleftrightarrow> ?R")
    proof
      assume L: ?L
      show ?R
      proof (intro allI impI)
        fix k assume "k < length (b # bs)"
        show "int (card (set (staged s) \<union> set (take k (b # bs))))
            < min (LOGSIZE P) (log_size s - 2)"
        proof (cases k)
          case 0
          with cardn lt show ?thesis by simp
        next
          case (Suc k')
          with \<open>k < length (b # bs)\<close> have "k' < length bs" by simp
          with L Suc show ?thesis by blast
        qed
      qed
    next
      assume R: ?R
      show ?L
      proof (intro allI impI)
        fix k assume "k < length bs"
        then have "Suc k < length (b # bs)" by simp
        with R show "int (card (set (staged s) \<union> set (take (Suc k) (b # bs))))
            < min (LOGSIZE P) (log_size s - 2)" by blast
      qed
    qed
    finally show ?thesis .
  qed
qed

text \<open>
  C6, as the code has it. A transaction is a sequence \<open>bs\<close> of recorded block numbers,
  started with nothing staged and an operation admitted. If it records more than
  \<open>min LOGSIZE (size - 2)\<close> distinct blocks, it ends in the panic
  \<^verbatim>\<open>too big a transaction\<close>. It runs without a panic exactly when every call is
  made while fewer than \<open>min LOGSIZE (size - 2)\<close> distinct blocks have been recorded
  before it.
\<close>

theorem log_writes_capacity:
  assumes "log_lh_n s = 0" and "1 \<le> log_outstanding s"
  shows "(bs \<noteq> [] \<and> int (card (set bs)) > min (LOGSIZE P) (log_size s - 2) \<longrightarrow>
            (\<exists>s'. log_writes P bs s = Inl (''too big a transaction'', s')))
     \<and> ((\<exists>s'. log_writes P bs s = Inr s') \<longleftrightarrow>
            (\<forall>k<length bs. int (card (set (take k bs))) < min (LOGSIZE P) (log_size s - 2)))"
proof -
  from assms(1) have st: "staged s = []" by (simp add: staged_def)
  then have d: "distinct (staged s)" by simp
  from assms(1) have n0: "0 \<le> log_lh_n s" by simp
  have "\<exists>s'. log_writes P bs s = Inl (''too big a transaction'', s')"
    if "bs \<noteq> []" "int (card (set bs)) > min (LOGSIZE P) (log_size s - 2)"
    using log_writes_too_big [OF d n0 assms(2), of P bs] that st by simp
  moreover have "(\<exists>s'. log_writes P bs s = Inr s') \<longleftrightarrow>
            (\<forall>k<length bs. int (card (set (take k bs))) < min (LOGSIZE P) (log_size s - 2))"
    using log_writes_fits_iff [OF d n0 assms(2), of P bs] st by simp
  ultimately show ?thesis by blast
qed

lemma tx_begin_ok: "log_lh_n tx_begin = 0" "1 \<le> log_outstanding tx_begin"
  "log_size tx_begin = 30"
  by (simp_all add: tx_begin_def log_boot_def)

theorem log_writes_capacity_witness:
  "log_lh_n tx_begin = 0 \<and> 1 \<le> log_outstanding tx_begin
   \<and> [40..68] \<noteq> [] \<and> int (card (set [40..68])) > min (LOGSIZE xv6) (log_size tx_begin - 2)
   \<and> (\<exists>s'. log_writes xv6 [40..68] tx_begin = Inl (''too big a transaction'', s'))
   \<and> int (card (set (take 0 [40, 41, 40::int]))) < min (LOGSIZE xv6) (log_size tx_begin - 2)
   \<and> int (card (set (take 1 [40, 41, 40::int]))) < min (LOGSIZE xv6) (log_size tx_begin - 2)
   \<and> int (card (set (take 2 [40, 41, 40::int]))) < min (LOGSIZE xv6) (log_size tx_begin - 2)
   \<and> (\<exists>s'. log_writes xv6 [40, 41, 40] tx_begin = Inr s')"
proof -
  have a: "[40..68] \<noteq> ([]::int list)" by code_simp
  have b: "int (card (set [40..68])) > min (LOGSIZE xv6) (log_size tx_begin - 2)" by code_simp
  have c: "\<forall>k<length [40, 41, 40::int].
         int (card (set (take k [40, 41, 40::int]))) < min (LOGSIZE xv6) (log_size tx_begin - 2)"
    by (simp add: tx_begin_ok xv6_def less_Suc_eq take_Suc_Cons numeral_3_eq_3 all_conj_distrib)
  have d: "int (card (set (take 0 [40, 41, 40::int]))) < min (LOGSIZE xv6) (log_size tx_begin - 2)"
    "int (card (set (take 1 [40, 41, 40::int]))) < min (LOGSIZE xv6) (log_size tx_begin - 2)"
    "int (card (set (take 2 [40, 41, 40::int]))) < min (LOGSIZE xv6) (log_size tx_begin - 2)"
    by code_simp+
  from log_writes_capacity [OF tx_begin_ok(1,2), of "[40..68]" xv6]
    log_writes_capacity [OF tx_begin_ok(1,2), of "[40, 41, 40]" xv6] a b c d tx_begin_ok(1,2)
  show ?thesis by blast
qed

text \<open>
  The statement of C6 that a transaction within the limit never meets the panic fails
  at the limit itself: 28 distinct blocks fit a log of 30 blocks, yet recording the
  first of them once more ends in the panic.
\<close>

theorem log_writes_within_limit_counterexample:
  "log_lh_n tx_begin = 0 \<and> 1 \<le> log_outstanding tx_begin
   \<and> int (card (set ([40..67] @ [40]))) \<le> min (LOGSIZE xv6) (log_size tx_begin - 2)
   \<and> panic_msg (log_writes xv6 ([40..67] @ [40]) tx_begin) = Some ''too big a transaction''"
  by code_simp

section \<open>Admission\<close>

text \<open>
  C4. \<^verbatim>\<open>begin_op\<close> skips every state, the one at the call and those found at the
  wake-ups, in which a commit is in flight or
  \<open>n + (outstanding + 1) * MAXOPBLOCKS > LOGSIZE - 2\<close>; it stays asleep when no other
  state comes; in the first state where neither holds it adds one to
  \<open>outstanding\<close> and returns with the lock released. The capacity that the test
  uses is the constant \<^verbatim>\<open>LOGSIZE\<close>.
\<close>

theorem begin_op_admission:
  "begin_op P ws s =
     (case dropWhile (\<lambda>w. log_committing w \<noteq> 0
                       \<or> log_lh_n w + (log_outstanding w + 1) * MAXOPBLOCKS P > LOGSIZE P - 2)
             (s # ws) of
        [] \<Rightarrow> None
      | w # _ \<Rightarrow> Some (w\<lparr>log_outstanding := log_outstanding w + 1, log_lock := False\<rparr>))"
proof -
  have "begin_loop P ws (s\<lparr>log_lock := True\<rparr>) =
     (case dropWhile (\<lambda>w. log_committing w \<noteq> 0
                       \<or> log_lh_n w + (log_outstanding w + 1) * MAXOPBLOCKS P > LOGSIZE P - 2)
             (s # ws) of
        [] \<Rightarrow> None
      | w # _ \<Rightarrow> Some (w\<lparr>log_outstanding := log_outstanding w + 1, log_lock := False\<rparr>))"
    for s
    by (induction ws arbitrary: s) (simp_all add: release_def sleep_def)
  then show ?thesis by (simp only: begin_op_def acquire_def)
qed

theorem begin_op_admission_witness:
  "begin_op xv6 [busy_log, tx_begin] committing_log
     = Some (tx_begin\<lparr>log_outstanding := 2, log_lock := False\<rparr>)
   \<and> begin_op xv6 [busy_log] committing_log = None
   \<and> begin_op xv6 [] tx_begin = Some (tx_begin\<lparr>log_outstanding := 2, log_lock := False\<rparr>)"
  using begin_op_admission [of xv6 "[busy_log, tx_begin]" committing_log]
    begin_op_admission [of xv6 "[busy_log]" committing_log]
    begin_op_admission [of xv6 "[]" tx_begin]
  by (simp add: committing_log_def busy_log_def tx_begin_def log_boot_def xv6_def)

section \<open>What the functions leave behind\<close>

subsection \<open>What each function leaves of the log and adds to the steps\<close>

lemma steps_append: "steps (xs @ ys) = steps xs @ steps ys"
  by (induction xs rule: steps.induct) simp_all

lemma steps_map_Bread: "steps (map (\<lambda>i. Bread (f i)) ts) = []"
  by (induction ts) simp_all

lemma checksum_step_pair:
  "checksum_step P first i (c, s) =
     (block_sum P (bufs s (first + int i)) c, s\<lparr>trace := trace s @ [Bread (first + int i)]\<rparr>)"
  by (simp add: checksum_step_def bread_def)

lemma checksum_fold:
  "fold (checksum_step P first) ts (c, s) =
     (fold (\<lambda>i. block_sum P (bufs s (first + int i))) ts c,
      s\<lparr>trace := trace s @ map (\<lambda>i. Bread (first + int i)) ts\<rparr>)"
proof (induction ts arbitrary: c s)
  case Nil
  show ?case by simp
next
  case (Cons t ts)
  show ?case by (simp add: Cons.IH checksum_step_pair)
qed

lemma checksum_loop_eq:
  "checksum_loop P first s =
     (fold (\<lambda>i. block_sum P (bufs s (first + int i))) [0..<nat (log_lh_n s)] 0,
      s\<lparr>trace := trace s @ map (\<lambda>i. Bread (first + int i)) [0..<nat (log_lh_n s)]\<rparr>)"
  by (simp only: checksum_loop_def checksum_fold)

lemma write_log_step_fields:
  "log_start (write_log_step P t s) = log_start s"
  "log_lh_n (write_log_step P t s) = log_lh_n s"
  "log_lh_block (write_log_step P t s) = log_lh_block s"
  "steps (trace (write_log_step P t s)) = steps (trace s) @ [Bwrite (log_start s + int t + 2)]"
  by (simp_all add: write_log_step_def Let_def bread_def bwrite_def steps_append)

lemma write_log_fold:
  "log_start (fold (write_log_step P) ts s) = log_start s
   \<and> log_lh_n (fold (write_log_step P) ts s) = log_lh_n s
   \<and> log_lh_block (fold (write_log_step P) ts s) = log_lh_block s
   \<and> steps (trace (fold (write_log_step P) ts s))
       = steps (trace s) @ map (\<lambda>t. Bwrite (log_start s + int t + 2)) ts"
  by (induction ts arbitrary: s) (simp_all add: write_log_step_fields)

lemma write_log_fields:
  "log_start (write_log P s) = log_start s"
  "log_lh_n (write_log P s) = log_lh_n s"
  "log_lh_block (write_log P s) = log_lh_block s"
  "steps (trace (write_log P s))
     = steps (trace s) @ map (\<lambda>t. Bwrite (log_start s + int t + 2)) [0..<nat (log_lh_n s)]"
  by (simp_all add: write_log_def write_log_fold)

lemma install_step_fields:
  "log_start (install_step P t s) = log_start s"
  "log_lh_n (install_step P t s) = log_lh_n s"
  "log_lh_block (install_step P t s) = log_lh_block s"
  "steps (trace (install_step P t s)) = steps (trace s) @ [Bwrite (log_lh_block s t)]"
  by (simp_all add: install_step_def Let_def bread_def bwrite_def steps_append)

lemma install_fold:
  "log_start (fold (install_step P) ts s) = log_start s
   \<and> log_lh_n (fold (install_step P) ts s) = log_lh_n s
   \<and> log_lh_block (fold (install_step P) ts s) = log_lh_block s
   \<and> steps (trace (fold (install_step P) ts s))
       = steps (trace s) @ map (\<lambda>t. Bwrite (log_lh_block s t)) ts"
  by (induction ts arbitrary: s) (simp_all add: install_step_fields)

lemma install_trans_fields:
  "log_start (install_trans P s) = log_start s"
  "log_lh_n (install_trans P s) = log_lh_n s"
  "log_lh_block (install_trans P s) = log_lh_block s"
  "steps (trace (install_trans P s))
     = steps (trace s) @ map (\<lambda>t. Bwrite (log_lh_block s t)) [0..<nat (log_lh_n s)]"
  by (simp_all add: install_trans_def install_fold)

lemma write_head_fields:
  "log_start (write_head s) = log_start s"
  "log_lh_n (write_head s) = log_lh_n s"
  "log_lh_block (write_head s) = log_lh_block s"
  "steps (trace (write_head s)) = steps (trace s) @ [Bwrite (log_start s + 1)]"
  by (simp_all add: write_head_def Let_def bread_def bwrite_def steps_append)

lemma write_checksum_fields:
  "log_start (write_checksum P s) = log_start s"
  "log_lh_n (write_checksum P s) = log_lh_n s"
  "log_lh_block (write_checksum P s) = log_lh_block s"
  "steps (trace (write_checksum P s)) = steps (trace s) @ [Bwrite (log_start s)]"
  "log_checksum (write_checksum P s)
     = fold (\<lambda>i. block_sum P (bufs s (log_start s + 1 + int i))) [0..<nat (log_lh_n s)] 0
         mod of_nat (BSIZE P)"
  "b \<noteq> log_start s \<Longrightarrow> bufs (write_checksum P s) b = bufs s b"
  by (simp_all add: write_checksum_def checksum_loop_eq Let_def bread_def bwrite_def cprintf_def
        steps_append steps_map_Bread)

lemma check_checksum_eq:
  "fst (check_checksum P s) \<longleftrightarrow>
     log_checksum s = fold (\<lambda>i. block_sum P (bufs s (log_start s + 1 + int i)))
                        [0..<nat (log_lh_n s)] 0 mod of_nat (BSIZE P)"
  by (simp add: check_checksum_def checksum_loop_eq Let_def cprintf_def)

lemma check_checksum_fields:
  "log_start (snd (check_checksum P s)) = log_start s"
  "log_lh_n (snd (check_checksum P s)) = log_lh_n s"
  "log_lh_block (snd (check_checksum P s)) = log_lh_block s"
  "bufs (snd (check_checksum P s)) = bufs s"
  "disk (snd (check_checksum P s)) = disk s"
  "steps (trace (snd (check_checksum P s))) = steps (trace s)
     @ [Cprintf (if fst (check_checksum P s)
                 then ''check_checksum() - checksum validated prior to commit''
                 else ''check_checksum() - ERROR: checksum invalid prior to commit'') []]"
  by (simp_all add: check_checksum_def checksum_loop_eq Let_def cprintf_def
        steps_append steps_map_Bread)

text \<open>
  The verification cannot fail on what \<^verbatim>\<open>write_checksum\<close> has just left: the
  checksum block is none of the blocks summed.
\<close>

lemma check_after_write: "fst (check_checksum P (write_checksum P s))"
proof -
  have "fold (\<lambda>i. block_sum P (bufs (write_checksum P s) (log_start s + 1 + int i))) ts 0
      = fold (\<lambda>i. block_sum P (bufs s (log_start s + 1 + int i))) ts 0" for ts
    by (rule arg_cong [where f = "\<lambda>f. fold f ts 0"]) (simp add: write_checksum_fields(6))
  then show ?thesis by (simp add: check_checksum_eq write_checksum_fields)
qed

subsection \<open>The checksum block\<close>

text \<open>The sum of the four shifted bytes is their bitwise union.\<close>

lemma get_uint_or:
  "get_uint off d =
     ucast (d off) OR push_bit 8 (ucast (d (off + 1)))
       OR push_bit 16 (ucast (d (off + 2))) OR push_bit 24 (ucast (d (off + 3)))"
proof -
  define b0 :: uint where "b0 = ucast (d off)"
  define b1 :: uint where "b1 = push_bit 8 (ucast (d (off + 1)))"
  define b2 :: uint where "b2 = push_bit 16 (ucast (d (off + 2)))"
  define b3 :: uint where "b3 = push_bit 24 (ucast (d (off + 3)))"
  have 1: "b0 AND b1 = 0"
    by (rule bit_word_eqI) (auto simp: b0_def b1_def bit_simps dest: bit_imp_le_length)
  have 2: "(b0 OR b1) AND b2 = 0"
    by (rule bit_word_eqI) (auto simp: b0_def b1_def b2_def bit_simps dest: bit_imp_le_length)
  have 3: "((b0 OR b1) OR b2) AND b3 = 0"
    by (rule bit_word_eqI)
      (auto simp: b0_def b1_def b2_def b3_def bit_simps dest: bit_imp_le_length)
  have "b0 + b1 + b2 + b3 = b0 OR b1 OR b2 OR b3"
    using 1 2 3 by (simp add: disjunctive_add_eq_or or.assoc)
  then show ?thesis by (simp only: get_uint_def b0_def b1_def b2_def b3_def)
qed

text \<open>Reading back the four bytes that \<^verbatim>\<open>write_checksum\<close> stores gives the checksum.\<close>

lemma get_uint_bytes:
  "get_uint 0 (d(0 := ucast c, 1 := ucast (drop_bit 8 c), 2 := ucast (drop_bit 16 c),
                3 := ucast (drop_bit 24 c))) = (c :: uint)"
proof -
  have "(ucast (ucast c :: byte) :: uint) OR push_bit 8 (ucast (ucast (drop_bit 8 c) :: byte))
      OR push_bit 16 (ucast (ucast (drop_bit 16 c) :: byte))
      OR push_bit 24 (ucast (ucast (drop_bit 24 c) :: byte)) = c" (is "?l = c")
  proof (rule bit_word_eqI)
    fix n assume "n < LENGTH(32)"
    then consider "n < 8" | "8 \<le> n" "n < 16" | "16 \<le> n" "n < 24" | "24 \<le> n" "n < 32"
      by fastforce
    then show "bit ?l n \<longleftrightarrow> bit c n"
      by cases (auto simp: bit_simps)
  qed
  then show ?thesis by (simp add: get_uint_or)
qed

lemma write_checksum_disk:
  "disk (write_checksum P s) =
     (disk s)(log_start s :=
        (bufs s (log_start s))
          (0 := ucast (log_checksum (write_checksum P s)),
           1 := ucast (drop_bit 8 (log_checksum (write_checksum P s))),
           2 := ucast (drop_bit 16 (log_checksum (write_checksum P s))),
           3 := ucast (drop_bit 24 (log_checksum (write_checksum P s)))))"
  by (simp add: write_checksum_def checksum_loop_eq Let_def bread_def bwrite_def cprintf_def)

lemma write_checksum_stored:
  "get_uint 0 (disk (write_checksum P s) (log_start s)) = log_checksum (write_checksum P s)"
  by (simp only: write_checksum_disk fun_upd_same get_uint_bytes)

lemma write_head_disk:
  "disk (write_head s) =
     (disk s)(log_start s + 1 :=
        fold (\<lambda>i d. put_int (4 + 4 * i) (log_lh_block s i) d) [0..<nat (log_lh_n s)]
          (put_int 0 (log_lh_n s) (bufs s (log_start s + 1))))"
  by (simp add: write_head_def Let_def bread_def bwrite_def)

subsection \<open>The header block\<close>

text \<open>An \<^verbatim>\<open>int\<close> written into a block is read back, and leaves the other fields alone.\<close>

lemma uint_of_bytes:
  "(ucast (ucast c :: byte) :: uint) + push_bit 8 (ucast (ucast (drop_bit 8 c) :: byte))
      + push_bit 16 (ucast (ucast (drop_bit 16 c) :: byte))
      + push_bit 24 (ucast (ucast (drop_bit 24 c) :: byte)) = c"
  using get_uint_bytes [of "\<lambda>_. 0" c] by (simp add: get_uint_def)

lemma get_uint_put_int: "get_uint off (put_int off v d) = word_of_int v"
  using uint_of_bytes [of "word_of_int v"] by (simp add: get_uint_def put_int_def)

lemma get_int_put_int:
  "- (2 ^ 31) \<le> v \<Longrightarrow> v < 2 ^ 31 \<Longrightarrow> get_int off (put_int off v d) = v"
  by (simp add: get_int_def get_uint_put_int sint_sbintrunc' signed_take_bit_int_eq_self)




lemma read_block_fold:
  "fold (\<lambda>i blk. blk(i := g i)) [0..<k] b t = (if t < k then g t else b t)"
  by (induction k) (simp_all add: less_Suc_eq)

lemma read_head_fields:
  "log_start (read_head s) = log_start s"
  "log_lh_n (read_head s) = get_int 0 (bufs s (log_start s + 1))"
  "t < nat (get_int 0 (bufs s (log_start s + 1))) \<Longrightarrow>
     log_lh_block (read_head s) t = get_int (4 + 4 * t) (bufs s (log_start s + 1))"
  "bufs (read_head s) = bufs s" "disk (read_head s) = disk s"
  "log_checksum (read_head s) = log_checksum s"
  "trace (read_head s) = trace s @ [Bread (log_start s + 1)]"
  by (simp_all add: read_head_def Let_def bread_def read_block_fold)


lemma write_head_trace:
  "trace (write_head s) = trace s @ [Bread (log_start s + 1), Bwrite (log_start s + 1)]"
  by (simp add: write_head_def Let_def bread_def bwrite_def)

subsection \<open>Buffers and disk after the copy loops\<close>

text \<open>
  When no home block is one of the log slots, \<^verbatim>\<open>write_log\<close> fills slot \<open>t\<close> with
  the buffer of block \<open>block[t]\<close> and touches nothing else; when the home blocks
  are also distinct, \<^verbatim>\<open>install_trans\<close> fills the home block \<open>block[t]\<close> with the
  buffer of slot \<open>t\<close> and touches nothing else.
\<close>

lemma memmove_low: "j < BSIZE P \<Longrightarrow> memmove P dst src j = src j"
  by (simp add: memmove_def)




lemma install_step_contents:
  "bufs (install_step P t s) =
     (bufs s)(log_lh_block s t :=
        memmove P (bufs s (log_lh_block s t)) (bufs s (log_start s + int t + 2)))"
  "disk (install_step P t s) =
     (disk s)(log_lh_block s t :=
        memmove P (bufs s (log_lh_block s t)) (bufs s (log_start s + int t + 2)))"
  "trace (install_step P t s) =
     trace s @ [Bread (log_start s + int t + 2), Bread (log_lh_block s t),
                Bwrite (log_lh_block s t)]"
  by (simp_all add: install_step_def Let_def bread_def bwrite_def add.commute)

lemma install_fold_trace:
  "trace (fold (install_step P) ts s) =
     trace s @ concat (map (\<lambda>t. [Bread (log_start s + int t + 2), Bread (log_lh_block s t),
                                  Bwrite (log_lh_block s t)]) ts)"
proof (induction ts arbitrary: s)
  case Nil
  show ?case by simp
next
  case (Cons t ts)
  show ?case by (simp add: Cons.IH install_step_contents install_step_fields)
qed

lemma install_fold_contents:
  assumes "\<forall>t<k. \<forall>u<k. log_lh_block s t = log_lh_block s u \<longrightarrow> t = u"
    and "\<forall>t<k. \<forall>u<k. log_lh_block s t \<noteq> log_start s + int u + 2"
  shows "(\<forall>b. (\<forall>t<k. b \<noteq> log_lh_block s t) \<longrightarrow>
            bufs (fold (install_step P) [0..<k] s) b = bufs s b
            \<and> disk (fold (install_step P) [0..<k] s) b = disk s b)
     \<and> (\<forall>t<k. bufs (fold (install_step P) [0..<k] s) (log_lh_block s t)
                 = memmove P (bufs s (log_lh_block s t)) (bufs s (log_start s + int t + 2))
             \<and> disk (fold (install_step P) [0..<k] s) (log_lh_block s t)
                 = memmove P (bufs s (log_lh_block s t)) (bufs s (log_start s + int t + 2)))"
  using assms
proof (induction k)
  case 0
  show ?case by simp
next
  case (Suc k)
  define F where "F = fold (install_step P) [0..<k] s"
  from Suc.prems have pre: "\<forall>t<k. \<forall>u<k. log_lh_block s t = log_lh_block s u \<longrightarrow> t = u"
    "\<forall>t<k. \<forall>u<k. log_lh_block s t \<noteq> log_start s + int u + 2"
    by simp_all
  note IH = Suc.IH [OF pre, folded F_def]
  have f: "log_start F = log_start s" "log_lh_block F = log_lh_block s"
    by (simp_all add: F_def install_fold)
  have step: "fold (install_step P) [0..<Suc k] s = install_step P k F"
    by (simp add: F_def)
  from Suc.prems(1) have neq: "\<forall>t<k. log_lh_block s k \<noteq> log_lh_block s t"
    by (metis less_Suc_eq less_irrefl lessI)
  with IH have homek: "bufs F (log_lh_block s k) = bufs s (log_lh_block s k)" by simp
  from Suc.prems(2) have "\<forall>t<k. log_start s + int k + 2 \<noteq> log_lh_block s t"
    by (metis less_Suc_eq lessI)
  with IH have slotk: "bufs F (log_start s + int k + 2) = bufs s (log_start s + int k + 2)"
    by simp
  show ?case
    unfolding step
    using IH neq by (auto simp: install_step_contents f slotk homek less_Suc_eq)
qed

lemma install_trans_contents:
  assumes "\<forall>t<nat (log_lh_n s). \<forall>u<nat (log_lh_n s).
             log_lh_block s t = log_lh_block s u \<longrightarrow> t = u"
    and "\<forall>t<nat (log_lh_n s). \<forall>u<nat (log_lh_n s). log_lh_block s t \<noteq> log_start s + int u + 2"
  shows "(\<forall>t<nat (log_lh_n s). b \<noteq> log_lh_block s t) \<Longrightarrow>
            bufs (install_trans P s) b = bufs s b \<and> disk (install_trans P s) b = disk s b"
    and "t < nat (log_lh_n s) \<Longrightarrow>
          bufs (install_trans P s) (log_lh_block s t)
             = memmove P (bufs s (log_lh_block s t)) (bufs s (log_start s + int t + 2))
          \<and> disk (install_trans P s) (log_lh_block s t)
             = memmove P (bufs s (log_lh_block s t)) (bufs s (log_start s + int t + 2))"
  using install_fold_contents [OF assms, of P] by (simp_all add: install_trans_def)

lemma install_trans_trace:
  "trace (install_trans P s) =
     trace s @ concat (map (\<lambda>t. [Bread (log_start s + int t + 2), Bread (log_lh_block s t),
                                  Bwrite (log_lh_block s t)]) [0..<nat (log_lh_n s)])"
  by (simp add: install_trans_def install_fold_trace)

lemma install_fold_checksum: "log_checksum (fold (install_step P) ts s) = log_checksum s"
  by (induction ts arbitrary: s) (simp_all add: install_step_def Let_def bread_def bwrite_def)

lemma checksum_kept:
  "log_checksum (install_trans P s) = log_checksum s"
  "log_checksum (write_head s) = log_checksum s"
  "log_checksum (snd (check_checksum P s)) = log_checksum s"
  by (simp_all add: install_trans_def install_fold_checksum write_head_def Let_def bread_def
        bwrite_def check_checksum_def checksum_loop_eq cprintf_def)

text \<open>The install and the second header write, from any state.\<close>

lemma install_truncate_plain:
  fixes P q
  defines "r \<equiv> write_head ((install_trans P q)\<lparr>log_lh_n := 0\<rparr>)"
  shows "log_lh_n r = 0" "log_start r = log_start q" "log_lh_block r = log_lh_block q"
    and "log_checksum r = log_checksum q"
    and "get_int 0 (disk r (log_start q + 1)) = 0"
    and "trace r = trace q
           @ concat (map (\<lambda>t. [Bread (log_start q + int t + 2), Bread (log_lh_block q t),
                                  Bwrite (log_lh_block q t)]) [0..<nat (log_lh_n q)])
           @ [Bread (log_start q + 1), Bwrite (log_start q + 1)]"
  by (simp_all add: r_def write_head_fields install_trans_fields checksum_kept write_head_disk
        get_int_put_int write_head_trace install_trans_trace write_head_def Let_def bread_def
        bwrite_def)

lemma install_truncate_contents:
  fixes P q
  defines "r \<equiv> write_head ((install_trans P q)\<lparr>log_lh_n := 0\<rparr>)"
  assumes dist: "\<forall>t<nat (log_lh_n q). \<forall>u<nat (log_lh_n q).
             log_lh_block q t = log_lh_block q u \<longrightarrow> t = u"
    and out: "\<forall>t<nat (log_lh_n q).
       log_lh_block q t < log_start q \<or> log_start q + log_lh_n q + 1 < log_lh_block q t"
  shows "\<And>t. t < nat (log_lh_n q) \<Longrightarrow>
           disk r (log_lh_block q t)
             = memmove P (bufs q (log_lh_block q t)) (bufs q (log_start q + int t + 2))"
    and "\<And>b. b \<noteq> log_start q + 1 \<Longrightarrow> \<forall>t<nat (log_lh_n q). b \<noteq> log_lh_block q t \<Longrightarrow>
           disk r b = disk q b"
    and "disk r (log_start q + 1) = put_int 0 0 (bufs q (log_start q + 1))"
proof -
  have noslot: "\<forall>t<nat (log_lh_n q). \<forall>u<nat (log_lh_n q).
      log_lh_block q t \<noteq> log_start q + int u + 2"
    using out by fastforce
  note it = install_trans_contents [OF dist noslot, of _ P]
  have dr: "disk r = (disk (install_trans P q))(log_start q + 1 :=
      put_int 0 0 (bufs (install_trans P q) (log_start q + 1)))"
    by (simp add: r_def write_head_disk install_trans_fields)
  have nh: "\<forall>t<nat (log_lh_n q). log_start q + 1 \<noteq> log_lh_block q t"
    using out by fastforce
  show "disk r (log_lh_block q t)
      = memmove P (bufs q (log_lh_block q t)) (bufs q (log_start q + int t + 2))"
    if "t < nat (log_lh_n q)" for t
  proof -
    from nh that have "log_lh_block q t \<noteq> log_start q + 1" by metis
    with it(2) [OF that] show ?thesis by (simp add: dr)
  qed
  show "disk r b = disk q b"
    if "b \<noteq> log_start q + 1" "\<forall>t<nat (log_lh_n q). b \<noteq> log_lh_block q t" for b
    using it(1) [OF that(2)] that(1) by (simp add: dr)
  show "disk r (log_start q + 1) = put_int 0 0 (bufs q (log_start q + 1))"
    using it(1) [OF nh] by (simp add: dr)
qed

section \<open>Commit\<close>

subsection \<open>The transaction \<open>staged_tx\<close>\<close>

lemma upt_2: "[0..<2] = [0, 1]"
  by (simp add: upt_rec [of 0] upt_rec [of 1] numeral_2_eq_2)

lemma staged_tx_fields:
  "log_start staged_tx = 2" "log_lh_n staged_tx = 2" "log_lh_block staged_tx 0 = 40"
  "log_lh_block staged_tx (Suc 0) = 41" "trace staged_tx = []"
  "bufs staged_tx 3 = (\<lambda>_. 0)" "bufs staged_tx 4 = (\<lambda>_. 0)"
  by (simp_all add: staged_tx_def log_boot_def)

lemma sum_zero: "block_sum xv6 (\<lambda>_. 0) 0 = 0"
  by code_simp


lemma all_less_2: "(\<forall>t<2. Q t) \<longleftrightarrow> Q 0 \<and> Q (Suc 0)"
  by (auto simp: less_2_cases_iff)

lemma write_log_staged_tx:
  "bufs (write_log xv6 staged_tx) 3 = (\<lambda>_. 0)"
  "bufs (write_log xv6 staged_tx) 4 = memmove xv6 (\<lambda>_. 0) ((\<lambda>_. 0)(0 := 1))"
  "bufs (write_log xv6 staged_tx) 2 = (\<lambda>_. 0)"
  "disk (write_log xv6 staged_tx) 4 = memmove xv6 (\<lambda>_. 0) ((\<lambda>_. 0)(0 := 1))"
  "disk (write_log xv6 staged_tx) 5 = memmove xv6 (\<lambda>_. 0) ((\<lambda>_. 0)(0 := 2))"
  "disk (write_log xv6 staged_tx) 40 = (\<lambda>_. 0)"
  "disk (write_log xv6 staged_tx) 41 = (\<lambda>_. 0)"
  by (simp_all add: write_log_def write_log_step_def staged_tx_def log_boot_def Let_def
        bread_def bwrite_def upt_2)

lemma sum_one:
  "block_sum xv6 (memmove xv6 (\<lambda>_. 0) ((\<lambda>_. 0)(0 := 1))) 0 mod of_nat (BSIZE xv6) = 1"
  by code_simp

lemma commit_checksum: "log_checksum (write_checksum xv6 (write_log xv6 staged_tx)) = 1"
proof -
  have "log_checksum (write_checksum xv6 (write_log xv6 staged_tx))
      = block_sum xv6 (bufs (write_log xv6 staged_tx) 4)
          (block_sum xv6 (bufs (write_log xv6 staged_tx) 3) 0) mod of_nat (BSIZE xv6)"
    by (simp add: write_checksum_fields write_log_fields staged_tx_fields upt_2)
  then show ?thesis by (simp only: write_log_staged_tx sum_zero sum_one)
qed


subsection \<open>The order of a commit\<close>






subsection \<open>The empty transaction\<close>

text \<open>
  C9. With \<open>n = 0\<close> the commit returns the state it was given: no call to the buffer
  cache is made, and header, checksum, buffers and disk are as before.
\<close>

theorem commit_empty: "log_lh_n s = 0 \<Longrightarrow> commit P s = Inr s"
  by (simp add: commit_def)

theorem commit_empty_witness:
  "log_lh_n tx_begin = 0 \<and> commit xv6 tx_begin = Inr tx_begin"
  using commit_empty [of tx_begin xv6] by (simp add: tx_begin_def log_boot_def)

section \<open>Recovery\<close>

subsection \<open>Recovery with an empty in-memory header\<close>

lemma recover_n0:
  assumes "log_lh_n s = 0"
  shows "recover_from_log P s =
     (if get_uint 0 (bufs s (log_start s)) = 0
      then write_head
             ((install_trans P
                (read_head
                  (cprintf ''boot log checksum match, proceding with log commit. '' []
                     (bread (log_start s) s))))
              \<lparr>log_lh_n := 0\<rparr>)
      else cprintf ''boot log checksum mismatch, will not commit log.'' []
             (bread (log_start s) s))"
  using assms by (simp add: recover_from_log_def checksum_loop_eq Let_def bread_def)

lemma recover_loop_n0:
  "log_lh_n s = 0 \<Longrightarrow> fst (checksum_loop P first s) mod of_nat (BSIZE P) = 0"
  by (simp add: checksum_loop_eq)

subsection \<open>The disk after a crash behind the commit point\<close>

lemma crash_disk_blocks:
  "crash_disk 2 = disk (write_checksum xv6 (write_log xv6 staged_tx)) 2"
  "crash_disk 3 = put_int 8 41 (put_int 4 40 (put_int 0 2 (\<lambda>_. 0)))"
  "crash_disk 4 = memmove xv6 (\<lambda>_. 0) ((\<lambda>_. 0)(0 := 1))"
  "crash_disk 40 = (\<lambda>_. 0)"
  "crash_disk 41 = (\<lambda>_. 0)"
  "crash_disk 5 = memmove xv6 (\<lambda>_. 0) ((\<lambda>_. 0)(0 := 2))"
  by (simp_all add: crash_disk_def write_head_disk check_checksum_fields write_checksum_fields
        write_log_fields staged_tx_fields write_checksum_disk write_log_staged_tx upt_2)

lemma crash_disk_checksum: "get_uint 0 (crash_disk 2) = 1"
  using write_checksum_stored [of xv6 "write_log xv6 staged_tx"]
  by (simp add: crash_disk_blocks write_log_fields staged_tx_fields commit_checksum)

lemma header_bytes:
  "get_int 0 (put_int 8 41 (put_int 4 40 (put_int 0 2 (\<lambda>_. 0)))) = 2"
  "get_int 4 (put_int 8 41 (put_int 4 40 (put_int 0 2 (\<lambda>_. 0)))) = 40"
  "get_int 8 (put_int 8 41 (put_int 4 40 (put_int 0 2 (\<lambda>_. 0)))) = 41"
  by code_simp+

lemma slot_byte: "memmove xv6 (\<lambda>_. 0) ((\<lambda>_. 0)(0 := 1)) 0 = 1"
  by (simp add: memmove_def xv6_def)

lemma sum_slots:
  "block_sum xv6 (memmove xv6 (\<lambda>_. 0) ((\<lambda>_. 0)(0 := 2)))
     (block_sum xv6 (memmove xv6 (\<lambda>_. 0) ((\<lambda>_. 0)(0 := 1))) 0) mod of_nat (BSIZE xv6) = 3"
  by code_simp

lemma crash_boot_fields:
  "log_lh_n crash_boot = 0" "log_start crash_boot = 2" "bufs crash_boot = crash_disk"
  "disk crash_boot = crash_disk" "trace crash_boot = []"
  by (simp_all add: crash_boot_def log_boot_def)

lemma reboot_eq:
  "reboot = cprintf ''boot log checksum mismatch, will not commit log.'' [] (bread 2 crash_boot)"
  using recover_n0 [OF crash_boot_fields(1), of xv6]
  by (simp add: reboot_def crash_boot_fields crash_disk_checksum)

text \<open>
  The sum that the loop of \<^verbatim>\<open>recover_from_log\<close> computes on that disk when it runs
  over the count of the header on disk: it covers the slots \<open>start + 2\<close> and
  \<open>start + 3\<close>, not the blocks that \<^verbatim>\<open>write_checksum\<close> covered.
\<close>

lemma recover_sum_declared:
  "fst (checksum_loop xv6 (log_start crash_boot + 1 + 1)
          (crash_boot\<lparr>log_lh_n := get_int 0 (crash_disk 3)\<rparr>)) mod of_nat (BSIZE xv6) = 3"
  by (simp add: checksum_loop_eq crash_boot_fields crash_disk_blocks header_bytes upt_2 sum_slots)

lemma initlog_crash_disk:
  "initlog xv6 1 \<lparr>logstart = 2, nlog = 30\<rparr> (log_boot crash_disk) = Inr reboot"
  by (simp add: initlog_def reboot_def crash_boot_def xv6_def)

text \<open>
  C1, at a transaction that the code loses. The transaction \<open>staged_tx\<close> stages
  blocks 40 and 41. Its commit writes the log slots, computes the checksum 1 over
  blocks \<open>start + 1\<close> and \<open>start + 2\<close> (the header block and the first slot),
  stores it in the checksum block, verifies it and writes the header; the machine
  stops there. On the disk left behind the checksum block holds the checksum that
  commit computed, the header block holds \<open>n = 2\<close> and the block numbers 40 and 41,
  and the first slot holds the new data of block 40. At the next boot \<^verbatim>\<open>initlog\<close>
  returns, but recovery has summed no block at all (the in-memory \<open>n\<close> is 0 when
  the loop runs, the header is read only after the comparison), found 0 against the
  stored 1, printed the mismatch and replayed nothing: block 40 still has its old
  contents. Run over the two blocks that the header on disk declares, the loop of
  recovery would sum the slots \<open>start + 2\<close> and \<open>start + 3\<close> and find 3, again not
  the stored 1.
\<close>

theorem recovery_rejects_committed:
  "fst (check_checksum xv6 (write_checksum xv6 (write_log xv6 staged_tx)))
   \<and> get_uint 0 (crash_disk 2) = log_checksum (write_checksum xv6 (write_log xv6 staged_tx))
   \<and> get_uint 0 (crash_disk 2) = 1
   \<and> get_int 0 (crash_disk 3) = 2 \<and> get_int 4 (crash_disk 3) = 40
   \<and> get_int 8 (crash_disk 3) = 41
   \<and> crash_disk 4 0 = bufs staged_tx 40 0 \<and> bufs staged_tx 40 0 = 1
   \<and> initlog xv6 1 \<lparr>logstart = 2, nlog = 30\<rparr> (log_boot crash_disk) = Inr reboot
   \<and> fst (checksum_loop xv6 (log_start crash_boot + 1 + 1) (bread (log_start crash_boot) crash_boot))
         mod of_nat (BSIZE xv6) = 0
   \<and> trace reboot = [Bread 2, Cprintf ''boot log checksum mismatch, will not commit log.'' []]
   \<and> disk reboot = crash_disk
   \<and> crash_disk 40 0 = 0
   \<and> fst (checksum_loop xv6 (log_start crash_boot + 1 + 1)
            (crash_boot\<lparr>log_lh_n := get_int 0 (crash_disk 3)\<rparr>)) mod of_nat (BSIZE xv6) = 3"
proof -
  have "trace reboot
      = [Bread 2, Cprintf ''boot log checksum mismatch, will not commit log.'' []]"
    "disk reboot = crash_disk"
    by (simp_all add: reboot_eq cprintf_def bread_def crash_boot_fields)
  moreover have "bufs staged_tx 40 0 = 1" by (simp add: staged_tx_def)
  moreover have "log_lh_n (bread (log_start crash_boot) crash_boot) = 0"
    by (simp add: bread_def crash_boot_fields)
  then have "fst (checksum_loop xv6 (log_start crash_boot + 1 + 1)
        (bread (log_start crash_boot) crash_boot)) mod of_nat (BSIZE xv6) = 0"
    by (rule recover_loop_n0)
  ultimately show ?thesis
    using check_after_write [of xv6 "write_log xv6 staged_tx"] initlog_crash_disk
      recover_sum_declared
    by (simp add: crash_disk_checksum commit_checksum crash_disk_blocks(2-5) header_bytes
          slot_byte)
qed

subsection \<open>Recovery at boot\<close>

lemma boot_replay:
  fixes s
  defines "q \<equiv> read_head
        (cprintf ''boot log checksum match, proceding with log commit. '' []
           (bread (log_start s) s))"
  shows "log_start q = log_start s" "log_lh_n q = get_int 0 (bufs s (log_start s + 1))"
    "bufs q = bufs s" "disk q = disk s"
    "trace q = trace s @ [Bread (log_start s),
        Cprintf ''boot log checksum match, proceding with log commit. '' [],
        Bread (log_start s + 1)]"
    "\<And>t. t < nat (get_int 0 (bufs s (log_start s + 1))) \<Longrightarrow>
       log_lh_block q t = get_int (4 + 4 * t) (bufs s (log_start s + 1))"
  by (simp_all add: q_def read_head_fields cprintf_def bread_def)

lemma replay_disk_blocks:
  "replay_disk 2 = (\<lambda>_. 0)"
  "replay_disk 3 = put_int 8 41 (put_int 4 40 (put_int 0 2 (\<lambda>_. 0)))"
  "replay_disk 4 = (\<lambda>_. 0)(511 := 1)"
  "replay_disk 5 = (\<lambda>_. 0)(0 := 2)"
  "replay_disk 40 = (\<lambda>_. 0)" "replay_disk 41 = (\<lambda>_. 0)"
  by (simp_all add: replay_disk_def)

text \<open>
  C3. At boot the in-memory header is empty, and \<^verbatim>\<open>recover_from_log\<close> runs its
  checksum loop before it reads the header from the disk. Whatever the disk \<open>d\<close>
  holds, the recomputed checksum is 0, and \<^verbatim>\<open>initlog\<close> replays if the four bytes
  at the start of the checksum block read as 0, and otherwise prints the mismatch
  and does nothing else: the disk is as it was.

  The replay: \<^verbatim>\<open>initlog\<close> reads the checksum block, prints the match, reads the
  header block, and for each of the \<open>n\<close> blocks that the header on disk declares
  reads the slot and the home block and writes the home block; then it reads and
  writes the header block. It returns with \<open>n = 0\<close> in memory and in the header
  block on disk and with the block numbers of the header in memory. When the
  declared home blocks are distinct and lie outside the blocks
  \<open>start, \<dots>, start + n + 1\<close>, every home block on disk holds the data of its
  slot, and every block other than the header block and the home blocks is as it
  was.
\<close>

theorem boot_recovery_zero:
  assumes "4 * (LOGSIZE P + 1) < int (BSIZE P)"
  shows "fst (checksum_loop P (logstart sb + 1 + 1)
              (bread (logstart sb)
                 ((log_boot d)\<lparr>log_lock := False, log_start := logstart sb, log_size := nlog sb,
                    log_dev := dev, log_checksum := 0\<rparr>))) mod of_nat (BSIZE P) = 0
     \<and> initlog P dev sb (log_boot d) =
        Inr (if get_uint 0 (d (logstart sb)) = 0
             then write_head
                    ((install_trans P
                       (read_head
                         (cprintf ''boot log checksum match, proceding with log commit. '' []
                            (bread (logstart sb)
                               ((log_boot d)\<lparr>log_lock := False, log_start := logstart sb,
                                  log_size := nlog sb, log_dev := dev, log_checksum := 0\<rparr>)))))
                     \<lparr>log_lh_n := 0\<rparr>)
             else cprintf ''boot log checksum mismatch, will not commit log.'' []
                    (bread (logstart sb)
                       ((log_boot d)\<lparr>log_lock := False, log_start := logstart sb,
                          log_size := nlog sb, log_dev := dev, log_checksum := 0\<rparr>)))
     \<and> (get_uint 0 (d (logstart sb)) \<noteq> 0 \<longrightarrow>
          (\<exists>r. initlog P dev sb (log_boot d) = Inr r
             \<and> disk r = d \<and> log_lh_n r = 0
             \<and> trace r = [Bread (logstart sb),
                           Cprintf ''boot log checksum mismatch, will not commit log.'' []]))
     \<and> (get_uint 0 (d (logstart sb)) = 0 \<longrightarrow>
          (\<exists>r. initlog P dev sb (log_boot d) = Inr r
             \<and> log_lh_n r = 0
             \<and> get_int 0 (disk r (logstart sb + 1)) = 0
             \<and> (\<forall>t<nat (get_int 0 (d (logstart sb + 1))).
                   log_lh_block r t = get_int (4 + 4 * t) (d (logstart sb + 1)))
             \<and> trace r =
                 [Bread (logstart sb),
                  Cprintf ''boot log checksum match, proceding with log commit. '' [],
                  Bread (logstart sb + 1)]
                 @ concat (map (\<lambda>t. [Bread (logstart sb + int t + 2),
                                       Bread (get_int (4 + 4 * t) (d (logstart sb + 1))),
                                       Bwrite (get_int (4 + 4 * t) (d (logstart sb + 1)))])
                            [0..<nat (get_int 0 (d (logstart sb + 1)))])
                 @ [Bread (logstart sb + 1), Bwrite (logstart sb + 1)]
             \<and> ((\<forall>t<nat (get_int 0 (d (logstart sb + 1))).
                    \<forall>u<nat (get_int 0 (d (logstart sb + 1))).
                      get_int (4 + 4 * t) (d (logstart sb + 1))
                        = get_int (4 + 4 * u) (d (logstart sb + 1)) \<longrightarrow> t = u)
                  \<and> (\<forall>t<nat (get_int 0 (d (logstart sb + 1))).
                        get_int (4 + 4 * t) (d (logstart sb + 1)) < logstart sb
                        \<or> logstart sb + get_int 0 (d (logstart sb + 1)) + 1
                             < get_int (4 + 4 * t) (d (logstart sb + 1)))
                  \<longrightarrow>
                    (\<forall>t<nat (get_int 0 (d (logstart sb + 1))). \<forall>j<BSIZE P.
                        disk r (get_int (4 + 4 * t) (d (logstart sb + 1))) j
                          = d (logstart sb + int t + 2) j)
                    \<and> (\<forall>b. b \<noteq> logstart sb + 1
                             \<and> (\<forall>t<nat (get_int 0 (d (logstart sb + 1))).
                                   b \<noteq> get_int (4 + 4 * t) (d (logstart sb + 1)))
                             \<longrightarrow> disk r b = d b))))"
proof -
  let ?st = "logstart sb"
  let ?hn = "get_int 0 (d (?st + 1))"
  let ?hb = "\<lambda>t. get_int (4 + 4 * t) (d (?st + 1))"
  define s where "s = (log_boot d)\<lparr>log_lock := False, log_start := ?st,
                    log_size := nlog sb, log_dev := dev, log_checksum := 0\<rparr>"
  define q where "q = read_head
        (cprintf ''boot log checksum match, proceding with log commit. '' [] (bread ?st s))"
  define r where "r = write_head ((install_trans P q)\<lparr>log_lh_n := 0\<rparr>)"
  have n: "log_lh_n s = 0" and sst: "log_start s = ?st" and b: "bufs s = d"
    and ds: "disk s = d" and tr: "trace s = []"
    by (simp_all add: s_def log_boot_def)
  have "log_lh_n (bread ?st s) = 0" using n by (simp add: bread_def)
  then have 1: "fst (checksum_loop P (?st + 1 + 1) (bread ?st s)) mod of_nat (BSIZE P) = 0"
    by (rule recover_loop_n0)
  have il: "initlog P dev sb (log_boot d) = Inr (recover_from_log P s)"
    using assms by (simp add: initlog_def s_def)
  have rec: "recover_from_log P s =
        (if get_uint 0 (d ?st) = 0 then r
         else cprintf ''boot log checksum mismatch, will not commit log.'' [] (bread ?st s))"
    using recover_n0 [OF n, of P] by (simp only: sst b r_def q_def)
  have 2: "initlog P dev sb (log_boot d) =
        Inr (if get_uint 0 (d ?st) = 0 then r
             else cprintf ''boot log checksum mismatch, will not commit log.'' [] (bread ?st s))"
    by (simp only: il rec)
  have 3: "\<exists>r. initlog P dev sb (log_boot d) = Inr r \<and> disk r = d \<and> log_lh_n r = 0
             \<and> trace r = [Bread ?st,
                           Cprintf ''boot log checksum mismatch, will not commit log.'' []]"
    if "get_uint 0 (d ?st) \<noteq> 0"
    using that by (simp add: 2 cprintf_def bread_def ds n tr)
  have qf: "log_start q = ?st" "log_lh_n q = ?hn" "bufs q = d" "disk q = d"
    "trace q = [Bread ?st,
        Cprintf ''boot log checksum match, proceding with log commit. '' [], Bread (?st + 1)]"
    "\<And>t. t < nat ?hn \<Longrightarrow> log_lh_block q t = ?hb t"
    using boot_replay [where s = s] by (simp_all add: q_def sst b ds tr)
  note qb = qf(6)
  have pl: "log_lh_n r = 0" "log_lh_block r = log_lh_block q"
    "get_int 0 (disk r (?st + 1)) = 0"
    "trace r = trace q
           @ concat (map (\<lambda>t. [Bread (?st + int t + 2), Bread (log_lh_block q t),
                                  Bwrite (log_lh_block q t)]) [0..<nat ?hn])
           @ [Bread (?st + 1), Bwrite (?st + 1)]"
    using install_truncate_plain [where P = P and q = q] by (simp_all only: r_def qf(1,2))
  have maps: "map (\<lambda>t. [Bread (?st + int t + 2), Bread (log_lh_block q t),
                         Bwrite (log_lh_block q t)]) [0..<nat ?hn]
      = map (\<lambda>t. [Bread (?st + int t + 2), Bread (?hb t), Bwrite (?hb t)]) [0..<nat ?hn]"
    by (rule map_cong) (simp_all add: qb)
  have trr: "trace r = [Bread ?st,
        Cprintf ''boot log checksum match, proceding with log commit. '' [], Bread (?st + 1)]
      @ concat (map (\<lambda>t. [Bread (?st + int t + 2), Bread (?hb t), Bwrite (?hb t)])
                 [0..<nat ?hn])
      @ [Bread (?st + 1), Bwrite (?st + 1)]"
    by (simp only: pl(4) qf(5) maps)
  have blocks: "\<forall>t<nat ?hn. log_lh_block r t = ?hb t"
    by (simp add: pl(2) qb)
  have cont: "(\<forall>t<nat ?hn. \<forall>j<BSIZE P. disk r (?hb t) j = d (?st + int t + 2) j)
      \<and> (\<forall>b. b \<noteq> ?st + 1 \<and> (\<forall>t<nat ?hn. b \<noteq> ?hb t) \<longrightarrow> disk r b = d b)"
    if dist: "\<forall>t<nat ?hn. \<forall>u<nat ?hn. ?hb t = ?hb u \<longrightarrow> t = u"
      and out: "\<forall>t<nat ?hn. ?hb t < ?st \<or> ?st + ?hn + 1 < ?hb t"
  proof -
    have dq: "\<forall>t<nat (log_lh_n q). \<forall>u<nat (log_lh_n q).
             log_lh_block q t = log_lh_block q u \<longrightarrow> t = u"
      using dist by (simp add: qf(2) qb)
    have oq: "\<forall>t<nat (log_lh_n q).
       log_lh_block q t < log_start q \<or> log_start q + log_lh_n q + 1 < log_lh_block q t"
      using out by (simp add: qf(1,2) qb)
    have c1: "disk r (log_lh_block q t)
             = memmove P (d (log_lh_block q t)) (d (?st + int t + 2))"
      if "t < nat ?hn" for t
      using install_truncate_contents(1) [OF dq oq, where P = P and t = t] that
      by (simp add: r_def qf(1,2,3))
    have c2: "disk r b = d b" if "b \<noteq> ?st + 1" "\<forall>t<nat ?hn. b \<noteq> log_lh_block q t" for b
      using install_truncate_contents(2) [OF dq oq, where P = P and b = b] that
      by (simp add: r_def qf(1,2,4))
    have "disk r (?hb t) j = d (?st + int t + 2) j" if "t < nat ?hn" "j < BSIZE P" for t j
      using c1 [OF that(1)] that by (simp add: qb memmove_low)
    moreover have "disk r b = d b" if "b \<noteq> ?st + 1" "\<forall>t<nat ?hn. b \<noteq> ?hb t" for b
      using c2 [OF that(1)] that(2) by (simp add: qb)
    ultimately show ?thesis by blast
  qed
  have 4: "\<exists>r. initlog P dev sb (log_boot d) = Inr r
             \<and> log_lh_n r = 0
             \<and> get_int 0 (disk r (?st + 1)) = 0
             \<and> (\<forall>t<nat ?hn. log_lh_block r t = ?hb t)
             \<and> trace r = [Bread ?st,
                    Cprintf ''boot log checksum match, proceding with log commit. '' [],
                    Bread (?st + 1)]
                 @ concat (map (\<lambda>t. [Bread (?st + int t + 2), Bread (?hb t), Bwrite (?hb t)])
                            [0..<nat ?hn])
                 @ [Bread (?st + 1), Bwrite (?st + 1)]
             \<and> ((\<forall>t<nat ?hn. \<forall>u<nat ?hn. ?hb t = ?hb u \<longrightarrow> t = u)
                  \<and> (\<forall>t<nat ?hn. ?hb t < ?st \<or> ?st + ?hn + 1 < ?hb t)
                  \<longrightarrow> (\<forall>t<nat ?hn. \<forall>j<BSIZE P. disk r (?hb t) j = d (?st + int t + 2) j)
                    \<and> (\<forall>b. b \<noteq> ?st + 1 \<and> (\<forall>t<nat ?hn. b \<noteq> ?hb t) \<longrightarrow> disk r b = d b))"
    if z: "get_uint 0 (d ?st) = 0"
  proof (intro exI [of _ r] conjI)
    show "initlog P dev sb (log_boot d) = Inr r" using z by (simp add: 2)
    show "log_lh_n r = 0" by (rule pl(1))
    show "get_int 0 (disk r (?st + 1)) = 0" by (rule pl(3))
    show "\<forall>t<nat ?hn. log_lh_block r t = ?hb t" by (rule blocks)
    show "trace r = [Bread ?st,
                    Cprintf ''boot log checksum match, proceding with log commit. '' [],
                    Bread (?st + 1)]
                 @ concat (map (\<lambda>t. [Bread (?st + int t + 2), Bread (?hb t), Bwrite (?hb t)])
                            [0..<nat ?hn])
                 @ [Bread (?st + 1), Bwrite (?st + 1)]" by (rule trr)
    show "(\<forall>t<nat ?hn. \<forall>u<nat ?hn. ?hb t = ?hb u \<longrightarrow> t = u)
                  \<and> (\<forall>t<nat ?hn. ?hb t < ?st \<or> ?st + ?hn + 1 < ?hb t)
                  \<longrightarrow> (\<forall>t<nat ?hn. \<forall>j<BSIZE P. disk r (?hb t) j = d (?st + int t + 2) j)
                    \<and> (\<forall>b. b \<noteq> ?st + 1 \<and> (\<forall>t<nat ?hn. b \<noteq> ?hb t) \<longrightarrow> disk r b = d b)"
      using cont by (intro impI) (elim conjE)
  qed
  show ?thesis
    apply (intro conjI)
       apply (rule 1 [unfolded s_def])
      apply (rule 2 [unfolded s_def q_def r_def])
     apply (rule impI, erule 3)
    apply (rule impI, erule 4)
    done
qed

theorem boot_recovery_zero_witness:
  "4 * (LOGSIZE xv6 + 1) < int (BSIZE xv6)
   \<and> get_uint 0 (crash_disk 2) = 1
   \<and> initlog xv6 1 \<lparr>logstart = 2, nlog = 30\<rparr> (log_boot crash_disk) =
       Inr (cprintf ''boot log checksum mismatch, will not commit log.'' []
              (bread 2 crash_boot))
   \<and> get_uint 0 (replay_disk 2) = 0
   \<and> get_int 0 (replay_disk 3) = 2
   \<and> replay_disk 40 511 = 0
   \<and> (\<exists>r. initlog xv6 1 \<lparr>logstart = 2, nlog = 30\<rparr> (log_boot replay_disk) = Inr r
         \<and> log_lh_n r = 0
         \<and> get_int 0 (disk r 3) = 0
         \<and> log_lh_block r 0 = 40 \<and> log_lh_block r 1 = 41
         \<and> trace r =
             [Bread 2, Cprintf ''boot log checksum match, proceding with log commit. '' [],
              Bread 3, Bread 4, Bread 40, Bwrite 40, Bread 5, Bread 41, Bwrite 41,
              Bread 3, Bwrite 3]
         \<and> disk r 40 511 = 1 \<and> disk r 41 0 = 2
         \<and> disk r 4 = replay_disk 4)"
proof -
  have h: "4 * (LOGSIZE xv6 + 1) < int (BSIZE xv6)" by (simp add: xv6_def)
  have z: "get_uint 0 (replay_disk (logstart \<lparr>logstart = 2, nlog = 30\<rparr>)) = 0"
    by (simp add: replay_disk_blocks get_uint_def)
  have hd: "get_int 0 (replay_disk 3) = 2" "get_int 4 (replay_disk 3) = 40"
    "get_int 8 (replay_disk 3) = 41"
    by (simp_all only: replay_disk_blocks header_bytes)
  note m = boot_recovery_zero [OF h, where sb = "\<lparr>logstart = 2, nlog = 30\<rparr>"
      and d = crash_disk and dev = 1, THEN conjunct2, THEN conjunct1]
  note t = boot_recovery_zero [OF h, where sb = "\<lparr>logstart = 2, nlog = 30\<rparr>"
      and d = replay_disk and dev = 1, THEN conjunct2, THEN conjunct2, THEN conjunct2,
      THEN mp, OF z]
  from t obtain r where r: "initlog xv6 1 \<lparr>logstart = 2, nlog = 30\<rparr> (log_boot replay_disk) = Inr r"
    "log_lh_n r = 0" "get_int 0 (disk r 3) = 0"
    "log_lh_block r 0 = 40 \<and> log_lh_block r (Suc 0) = 41"
    "trace r =
             [Bread 2, Cprintf ''boot log checksum match, proceding with log commit. '' [],
              Bread 3, Bread 4, Bread 40, Bwrite 40, Bread 5, Bread 41, Bwrite 41,
              Bread 3, Bwrite 3]"
    "(\<forall>j<BSIZE xv6. disk r 40 j = replay_disk 4 j) \<and> (\<forall>j<BSIZE xv6. disk r 41 j = replay_disk 5 j)"
    "\<forall>b. b \<noteq> 3 \<and> b \<noteq> 40 \<and> b \<noteq> 41 \<longrightarrow> disk r b = replay_disk b"
    by (simp add: hd all_less_2 upt_2) blast
  from r(6) have "disk r 40 511 = 1" "disk r 41 0 = 2"
    by (simp_all add: xv6_def replay_disk_blocks)
  moreover from r(7) have "disk r 4 = replay_disk 4" by simp
  moreover have "replay_disk 40 511 = 0" by (simp add: replay_disk_blocks)
  ultimately show ?thesis
    using h m z hd r(1-5) by (simp add: crash_disk_checksum crash_boot_def)
qed

text \<open>
  C7. When the checksum read from the checksum block differs from the recomputed
  one, \<^verbatim>\<open>recover_from_log\<close> has read the checksum block and the log slots, printed
  the mismatch, and changed nothing: the disk, the buffers and the log fields are
  as before and no \<^verbatim>\<open>bwrite\<close> was made. \<^verbatim>\<open>initlog\<close> has no panic of its own
  behind the size test of the header, so it returns.
\<close>

theorem recover_mismatch:
  "(get_uint 0 (bufs s (log_start s))
       \<noteq> fst (checksum_loop P (log_start s + 1 + 1) s) mod of_nat (BSIZE P) \<longrightarrow>
     recover_from_log P s =
       s\<lparr>trace := trace s @ Bread (log_start s)
                   # map (\<lambda>i. Bread (log_start s + 1 + 1 + int i)) [0..<nat (log_lh_n s)]
                   @ [Cprintf ''boot log checksum mismatch, will not commit log.'' []]\<rparr>)
   \<and> (4 * (LOGSIZE P + 1) < int (BSIZE P) \<longrightarrow>
        initlog P dev sb s0 =
          Inr (recover_from_log P
                 (s0\<lparr>log_lock := False, log_start := logstart sb, log_size := nlog sb,
                      log_dev := dev, log_checksum := 0\<rparr>)))"
  by (simp add: recover_from_log_def checksum_loop_eq Let_def bread_def cprintf_def initlog_def)

theorem recover_mismatch_witness:
  "get_uint 0 (bufs crash_boot (log_start crash_boot))
       \<noteq> fst (checksum_loop xv6 (log_start crash_boot + 1 + 1) crash_boot) mod of_nat (BSIZE xv6)
   \<and> recover_from_log xv6 crash_boot =
       crash_boot\<lparr>trace :=
         [Bread 2, Cprintf ''boot log checksum mismatch, will not commit log.'' []]\<rparr>
   \<and> 4 * (LOGSIZE xv6 + 1) < int (BSIZE xv6)
   \<and> initlog xv6 1 \<lparr>logstart = 2, nlog = 30\<rparr> (log_boot crash_disk) =
       Inr (recover_from_log xv6 crash_boot)"
proof -
  have "fst (checksum_loop xv6 (log_start crash_boot + 1 + 1) crash_boot)
      mod of_nat (BSIZE xv6) = 0"
    using crash_boot_fields(1) by (rule recover_loop_n0)
  then have m: "get_uint 0 (bufs crash_boot (log_start crash_boot))
       \<noteq> fst (checksum_loop xv6 (log_start crash_boot + 1 + 1) crash_boot) mod of_nat (BSIZE xv6)"
    by (simp add: crash_boot_fields crash_disk_checksum)
  have h: "4 * (LOGSIZE xv6 + 1) < int (BSIZE xv6)" by (simp add: xv6_def)
  from recover_mismatch [where s = crash_boot and P = xv6 and dev = 1
      and sb = "\<lparr>logstart = 2, nlog = 30\<rparr>" and ?s0.0 = "log_boot crash_disk"] m h
  show ?thesis by (simp add: crash_boot_fields) (simp add: crash_boot_def)
qed

end
